theory Spec2Isabelle
  imports Main "HOL-Library.Word"
begin

section \<open>The CulturalVoting contract: data model\<close>

text \<open>
  The contract is \<^verbatim>\<open>contract CulturalVoting\<close> (Solidity \<^verbatim>\<open>^0.8.24\<close>), printed in
  \<^verbatim>\<open>src/docs/cultural-voting.md\<close>. Solidity 0.8 checks every arithmetic operation:
  an overflowing \<^verbatim>\<open>++\<close> or \<^verbatim>\<open>+=\<close> on a \<^verbatim>\<open>uint8\<close> reverts the whole call with
  \<^verbatim>\<open>Panic(0x11)\<close>; the contract has no \<^verbatim>\<open>unchecked\<close> block. A reverted call leaves
  the storage as it was, so every external function is a function from the storage to
  either a revert reason or the new storage. The calls into the FHE library
  (\<^verbatim>\<open>asEuint8\<close>, \<^verbatim>\<open>allowThis\<close>, \<^verbatim>\<open>allow\<close>, \<^verbatim>\<open>toBytes32\<close>, \<^verbatim>\<open>requestDecryption\<close>) are
  taken to return; gas is not modelled. Solidity identifiers that start with an
  underscore lose it (\<^verbatim>\<open>_finalizeResults\<close> is \<open>finalizeResults\<close>).
\<close>

type_synonym uint8 = "8 word"
type_synonym uint256 = "256 word"
type_synonym address = "160 word"

text \<open>
  An \<^verbatim>\<open>euint8\<close> is an opaque handle of a ciphertext. \<^verbatim>\<open>FHE.asEuint8(x)\<close> is the
  handle of the encryption of \<open>x\<close>; a storage slot never written holds the zero handle.
\<close>

datatype euint8 = NoHandle | AsEuint8 uint8

record CulturalProject =
  name :: string
  description :: string
  category :: string
  proposer :: address
  isActive :: bool
  proposalTime :: uint256

record Vote =
  encryptedScore :: euint8
  hasVoted :: bool
  timestamp :: uint256

record VotingRound =
  projectIds :: "uint8 list"
  votingActive :: bool
  resultsRevealed :: bool
  startTime :: uint256
  endTime :: uint256
  voters :: "address list"
  winningProjectId :: uint8
  maxScore :: uint8

text \<open>
  What a call leaves outside the storage: the events it emits, the access grants
  (\<^verbatim>\<open>FHE.allowThis\<close>, \<^verbatim>\<open>FHE.allow\<close>) and the decryption request
  (\<^verbatim>\<open>FHE.requestDecryption(cts, this.processResults.selector)\<close>) it hands to the
  oracle. They are appended to \<open>trace\<close>, in the order the code performs them.
\<close>

datatype event =
    ProjectProposed uint8 string address
  | VotingRoundStarted uint8 "uint8 list" uint256
  | VoteSubmitted address uint8 uint8
  | ResultsRevealed uint8 uint8 uint8
  | VoterAuthorized address
  | VoterRevoked address
  | AllowThis euint8
  | Allow euint8 address
  | RequestDecryption "euint8 list"

record contract =
  admin :: address
  currentVotingRound :: uint8
  projects :: "uint8 \<Rightarrow> CulturalProject"
  votingRounds :: "uint8 \<Rightarrow> VotingRound"
  votes :: "uint8 \<Rightarrow> uint8 \<Rightarrow> address \<Rightarrow> Vote"
  authorizedVoters :: "address \<Rightarrow> bool"
  totalProjects :: uint8
  trace :: "event list"

text \<open>
  The reasons a call reverts with, one per \<^verbatim>\<open>require\<close> message of the contract:
  \<^item> \<open>NotAuthorized\<close>: "Not authorized" (\<^verbatim>\<open>onlyAdmin\<close>; the spec's Unauthorized);
  \<^item> \<open>NotAuthorizedToVote\<close>: "Not authorized to vote" (\<^verbatim>\<open>onlyAuthorizedVoter\<close>; the
    spec's Unauthorized for a participant);
  \<^item> \<open>VotingNotActive\<close>: "Voting not active" (the spec's NotActive);
  \<^item> \<open>VotingAlreadyActive\<close>: "Voting already active" (the spec's AlreadyActive);
  \<^item> \<open>NoProjectsSelected\<close>: "No projects selected" (the spec's EmptySelection);
  \<^item> \<open>ProjectNotActive\<close>: "Project not active" (the spec's UnknownEntry);
  \<^item> \<open>ScoreOutOfRange\<close>: "Score must be between 1-10";
  \<^item> \<open>ProjectNotInCurrentRound\<close>: "Project not in current round" (the spec's
    EntryNotInRound);
  \<^item> \<open>AlreadyVoted\<close>: "Already voted for this project" (the spec's
    DuplicateSubmission);
  \<^item> \<open>ResultsAlreadyRevealed\<close>: "Results already revealed";
  \<^item> \<open>Panic\<close>: the arithmetic overflow of checked \<^verbatim>\<open>uint8\<close> arithmetic.
  The contract has no revert for the spec's AlreadyProcessed, Mismatch or NotFound.
\<close>

datatype revert =
    NotAuthorized
  | NotAuthorizedToVote
  | VotingNotActive
  | VotingAlreadyActive
  | NoProjectsSelected
  | ProjectNotActive
  | ScoreOutOfRange
  | ProjectNotInCurrentRound
  | AlreadyVoted
  | ResultsAlreadyRevealed
  | Panic

text \<open>Storage never written reads as zero.\<close>

definition zeroProject :: CulturalProject where
  "zeroProject = \<lparr>name = [], description = [], category = [], proposer = 0,
     isActive = False, proposalTime = 0\<rparr>"

definition zeroVote :: Vote where
  "zeroVote = \<lparr>encryptedScore = NoHandle, hasVoted = False, timestamp = 0\<rparr>"

definition zeroRound :: VotingRound where
  "zeroRound = \<lparr>projectIds = [], votingActive = False, resultsRevealed = False,
     startTime = 0, endTime = 0, voters = [], winningProjectId = 0, maxScore = 0\<rparr>"

section \<open>The operations\<close>

text \<open>Every operation takes the storage, \<^verbatim>\<open>msg.sender\<close> and \<^verbatim>\<open>block.timestamp\<close>.\<close>

definition constructor :: "address \<Rightarrow> contract" where
  "constructor sender =
     \<lparr>admin = sender, currentVotingRound = 1, projects = (\<lambda>_. zeroProject),
      votingRounds = (\<lambda>_. zeroRound), votes = (\<lambda>_ _ _. zeroVote),
      authorizedVoters = (\<lambda>_. False)(sender := True), totalProjects = 0, trace = []\<rparr>"

definition proposeProject ::
  "contract \<Rightarrow> address \<Rightarrow> uint256 \<Rightarrow> string \<Rightarrow> string \<Rightarrow> string \<Rightarrow> revert + contract" where
  "proposeProject s sender now n d c =
     (if totalProjects s = 255 then Inl Panic
      else
        let tp = totalProjects s + 1 in
        Inr (s\<lparr>totalProjects := tp,
               projects := (projects s)(tp :=
                 \<lparr>name = n, description = d, category = c, proposer = sender,
                  isActive = True, proposalTime = now\<rparr>),
               trace := trace s @ [ProjectProposed tp n sender]\<rparr>))"

definition authorizeVoter :: "contract \<Rightarrow> address \<Rightarrow> address \<Rightarrow> revert + contract" where
  "authorizeVoter s sender voter =
     (if sender \<noteq> admin s then Inl NotAuthorized
      else Inr (s\<lparr>authorizedVoters := (authorizedVoters s)(voter := True),
                  trace := trace s @ [VoterAuthorized voter]\<rparr>))"

definition revokeVoter :: "contract \<Rightarrow> address \<Rightarrow> address \<Rightarrow> revert + contract" where
  "revokeVoter s sender voter =
     (if sender \<noteq> admin s then Inl NotAuthorized
      else Inr (s\<lparr>authorizedVoters := (authorizedVoters s)(voter := False),
                  trace := trace s @ [VoterRevoked voter]\<rparr>))"

text \<open>The loop of \<^verbatim>\<open>startVotingRound\<close> that requires every listed project active.\<close>

fun requireActive :: "(uint8 \<Rightarrow> CulturalProject) \<Rightarrow> uint8 list \<Rightarrow> bool" where
  "requireActive ps [] = True"
| "requireActive ps (i # ids) = (if isActive (ps i) then requireActive ps ids else False)"

definition startVotingRound ::
  "contract \<Rightarrow> address \<Rightarrow> uint256 \<Rightarrow> uint8 list \<Rightarrow> revert + contract" where
  "startVotingRound s sender now ids =
     (if sender \<noteq> admin s then Inl NotAuthorized
      else if votingActive (votingRounds s (currentVotingRound s)) then Inl VotingAlreadyActive
      else if \<not> 0 < length ids then Inl NoProjectsSelected
      else if \<not> requireActive (projects s) ids then Inl ProjectNotActive
      else Inr (s\<lparr>votingRounds := (votingRounds s)(currentVotingRound s :=
                    \<lparr>projectIds = ids, votingActive = True, resultsRevealed = False,
                     startTime = now, endTime = 0, voters = [],
                     winningProjectId = 0, maxScore = 0\<rparr>),
                  trace := trace s @ [VotingRoundStarted (currentVotingRound s) ids now]\<rparr>))"

text \<open>\<^verbatim>\<open>_isProjectInCurrentRound\<close>: the linear search of the snapshot.\<close>

fun isProjectIn :: "uint8 list \<Rightarrow> uint8 \<Rightarrow> bool" where
  "isProjectIn [] p = False"
| "isProjectIn (i # ids) p = (if i = p then True else isProjectIn ids p)"

definition isProjectInCurrentRound :: "contract \<Rightarrow> uint8 \<Rightarrow> bool" where
  "isProjectInCurrentRound s p =
     isProjectIn (projectIds (votingRounds s (currentVotingRound s))) p"

text \<open>\<^verbatim>\<open>_addVoterToRound\<close>: returns early when the voter is listed, pushes otherwise.\<close>

fun isVoterIn :: "address list \<Rightarrow> address \<Rightarrow> bool" where
  "isVoterIn [] v = False"
| "isVoterIn (x # xs) v = (if x = v then True else isVoterIn xs v)"

definition addVoterToRound :: "contract \<Rightarrow> address \<Rightarrow> contract" where
  "addVoterToRound s voter =
     (let r = currentVotingRound s; rd = votingRounds s r in
      if isVoterIn (voters rd) voter then s
      else s\<lparr>votingRounds := (votingRounds s)(r := rd\<lparr>voters := voters rd @ [voter]\<rparr>)\<rparr>)"

text \<open>
  \<^verbatim>\<open>submitVote\<close>: the modifiers run in the order they are written
  (\<^verbatim>\<open>onlyAuthorizedVoter\<close>, then \<^verbatim>\<open>onlyDuringVoting\<close>), then the three
  \<^verbatim>\<open>require\<close>s of the body.
\<close>

definition submitVote ::
  "contract \<Rightarrow> address \<Rightarrow> uint256 \<Rightarrow> uint8 \<Rightarrow> uint8 \<Rightarrow> revert + contract" where
  "submitVote s sender now pid score =
     (let r = currentVotingRound s in
      if \<not> authorizedVoters s sender then Inl NotAuthorizedToVote
      else if \<not> votingActive (votingRounds s r) then Inl VotingNotActive
      else if \<not> (1 \<le> score \<and> score \<le> 10) then Inl ScoreOutOfRange
      else if \<not> isProjectInCurrentRound s pid then Inl ProjectNotInCurrentRound
      else if hasVoted (votes s r pid sender) then Inl AlreadyVoted
      else
        let enc = AsEuint8 score;
            s1 = s\<lparr>votes := (votes s)(r := (votes s r)(pid := (votes s r pid)(sender :=
                     \<lparr>encryptedScore = enc, hasVoted = True, timestamp = now\<rparr>)))\<rparr>;
            s2 = addVoterToRound s1 sender
        in Inr (s2\<lparr>trace := trace s2 @
                     [AllowThis enc, Allow enc sender, VoteSubmitted sender r pid]\<rparr>))"

text \<open>
  \<^verbatim>\<open>_finalizeResults\<close>: writes the winner fields, reveals, emits, and increments the
  round counter (checked: at 255 the increment panics and the whole call reverts).
\<close>

definition finalizeResults :: "contract \<Rightarrow> uint8 \<Rightarrow> uint8 \<Rightarrow> revert + contract" where
  "finalizeResults s w m =
     (let r = currentVotingRound s;
          s1 = s\<lparr>votingRounds := (votingRounds s)(r := (votingRounds s r)
                     \<lparr>winningProjectId := w, maxScore := m, resultsRevealed := True\<rparr>),
                 trace := trace s @ [ResultsRevealed r w m]\<rparr>
      in if r = 255 then Inl Panic else Inr (s1\<lparr>currentVotingRound := r + 1\<rparr>))"

text \<open>
  \<^verbatim>\<open>_requestResultsDecryption\<close>: the first pair of loops counts the submitted votes
  (entries in snapshot order, voters in insertion order), the second pair fills
  \<^verbatim>\<open>cts\<close> with their handles in the same order. \<^verbatim>\<open>totalVotes\<close> and \<^verbatim>\<open>index\<close> are
  \<^verbatim>\<open>uint256\<close> counters of loop iterations and cannot overflow.
\<close>

fun countVoters :: "(address \<Rightarrow> Vote) \<Rightarrow> address list \<Rightarrow> nat \<Rightarrow> nat" where
  "countVoters vt [] totalVotes = totalVotes"
| "countVoters vt (v # vs) totalVotes =
     countVoters vt vs (if hasVoted (vt v) then totalVotes + 1 else totalVotes)"

fun countVotes :: "(uint8 \<Rightarrow> address \<Rightarrow> Vote) \<Rightarrow> address list \<Rightarrow> uint8 list \<Rightarrow> nat \<Rightarrow> nat" where
  "countVotes vr vs [] totalVotes = totalVotes"
| "countVotes vr vs (p # ps) totalVotes = countVotes vr vs ps (countVoters (vr p) vs totalVotes)"

fun collectVoters :: "(address \<Rightarrow> Vote) \<Rightarrow> address list \<Rightarrow> euint8 list \<Rightarrow> euint8 list" where
  "collectVoters vt [] cts = cts"
| "collectVoters vt (v # vs) cts =
     collectVoters vt vs (if hasVoted (vt v) then cts @ [encryptedScore (vt v)] else cts)"

fun collectVotes ::
  "(uint8 \<Rightarrow> address \<Rightarrow> Vote) \<Rightarrow> address list \<Rightarrow> uint8 list \<Rightarrow> euint8 list \<Rightarrow> euint8 list" where
  "collectVotes vr vs [] cts = cts"
| "collectVotes vr vs (p # ps) cts = collectVotes vr vs ps (collectVoters (vr p) vs cts)"

definition requestResultsDecryption :: "contract \<Rightarrow> revert + contract" where
  "requestResultsDecryption s =
     (let r = currentVotingRound s; rd = votingRounds s r;
          totalVotes = countVotes (votes s r) (voters rd) (projectIds rd) 0;
          cts = collectVotes (votes s r) (voters rd) (projectIds rd) []
      in if 0 < totalVotes then Inr (s\<lparr>trace := trace s @ [RequestDecryption cts]\<rparr>)
         else finalizeResults s 0 0)"

definition endVotingRound :: "contract \<Rightarrow> address \<Rightarrow> uint256 \<Rightarrow> revert + contract" where
  "endVotingRound s sender now =
     (let r = currentVotingRound s in
      if sender \<noteq> admin s then Inl NotAuthorized
      else if \<not> votingActive (votingRounds s r) then Inl VotingNotActive
      else if resultsRevealed (votingRounds s r) then Inl ResultsAlreadyRevealed
      else requestResultsDecryption
             (s\<lparr>votingRounds := (votingRounds s)(r := (votingRounds s r)
                   \<lparr>votingActive := False, endTime := now\<rparr>)\<rparr>))"

text \<open>
  The reduction of \<^verbatim>\<open>processResults\<close>. The inner loop walks the voters of one entry
  with the running \<^verbatim>\<open>projectScore\<close> and the shared \<^verbatim>\<open>scoreIndex\<close>; a submitted vote
  consumes \<^verbatim>\<open>decryptedScores[scoreIndex]\<close> only while \<^verbatim>\<open>scoreIndex\<close> is in range, and
  the \<^verbatim>\<open>uint8\<close> addition is checked. The outer loop walks the snapshot with the running
  winner and maximum, replaced on a strictly greater score.
\<close>

fun tallyVoters ::
  "(address \<Rightarrow> Vote) \<Rightarrow> uint8 list \<Rightarrow> address list \<Rightarrow> uint8 \<Rightarrow> nat \<Rightarrow> revert + (uint8 \<times> nat)" where
  "tallyVoters vt ds [] projectScore scoreIndex = Inr (projectScore, scoreIndex)"
| "tallyVoters vt ds (v # vs) projectScore scoreIndex =
     (if hasVoted (vt v) then
        (if scoreIndex < length ds then
           (if 255 < unat projectScore + unat (ds ! scoreIndex) then Inl Panic
            else tallyVoters vt ds vs (projectScore + ds ! scoreIndex) (scoreIndex + 1))
         else tallyVoters vt ds vs projectScore scoreIndex)
      else tallyVoters vt ds vs projectScore scoreIndex)"

fun tallyProjects ::
  "(uint8 \<Rightarrow> address \<Rightarrow> Vote) \<Rightarrow> uint8 list \<Rightarrow> address list \<Rightarrow> uint8 list \<Rightarrow>
     uint8 \<Rightarrow> uint8 \<Rightarrow> nat \<Rightarrow> revert + (uint8 \<times> uint8)" where
  "tallyProjects vr ds vs [] winningProject maxTotalScore scoreIndex =
     Inr (winningProject, maxTotalScore)"
| "tallyProjects vr ds vs (p # ps) winningProject maxTotalScore scoreIndex =
     (case tallyVoters (vr p) ds vs 0 scoreIndex of
        Inl e \<Rightarrow> Inl e
      | Inr (projectScore, scoreIndex') \<Rightarrow>
          if maxTotalScore < projectScore
          then tallyProjects vr ds vs ps p projectScore scoreIndex'
          else tallyProjects vr ds vs ps winningProject maxTotalScore scoreIndex')"

text \<open>The reduction on the current round of a storage.\<close>

definition tally :: "contract \<Rightarrow> uint8 list \<Rightarrow> revert + (uint8 \<times> uint8)" where
  "tally s ds =
     (let r = currentVotingRound s; rd = votingRounds s r in
      tallyProjects (votes s r) ds (voters rd) (projectIds rd) 0 0 0)"

text \<open>
  \<^verbatim>\<open>processResults(requestId, decryptedScores, signatures)\<close>: external, with no
  modifier and no \<^verbatim>\<open>require\<close>; \<^verbatim>\<open>requestId\<close> and \<^verbatim>\<open>signatures\<close> are never read.
\<close>

definition processResults ::
  "contract \<Rightarrow> address \<Rightarrow> uint256 \<Rightarrow> uint8 list \<Rightarrow> uint8 list list \<Rightarrow> revert + contract" where
  "processResults s sender requestId decryptedScores signatures =
     (case tally s decryptedScores of
        Inl e \<Rightarrow> Inl e
      | Inr (winningProject, maxTotalScore) \<Rightarrow> finalizeResults s winningProject maxTotalScore)"

section \<open>Calls and runs\<close>

datatype call =
    ProposeProject string string string
  | AuthorizeVoter address
  | RevokeVoter address
  | StartVotingRound "uint8 list"
  | SubmitVote uint8 uint8
  | EndVotingRound
  | ProcessResults uint256 "uint8 list" "uint8 list list"

fun exec :: "contract \<Rightarrow> address \<Rightarrow> uint256 \<Rightarrow> call \<Rightarrow> revert + contract" where
  "exec s sender now (ProposeProject n d c) = proposeProject s sender now n d c"
| "exec s sender now (AuthorizeVoter v) = authorizeVoter s sender v"
| "exec s sender now (RevokeVoter v) = revokeVoter s sender v"
| "exec s sender now (StartVotingRound ids) = startVotingRound s sender now ids"
| "exec s sender now (SubmitVote p sc) = submitVote s sender now p sc"
| "exec s sender now EndVotingRound = endVotingRound s sender now"
| "exec s sender now (ProcessResults rid ds sg) = processResults s sender rid ds sg"

text \<open>
  A transaction is a sender, a block timestamp and a call. A reverted transaction leaves
  the storage unchanged; \<open>run\<close> applies a list of transactions in order.
\<close>

type_synonym tx = "address \<times> uint256 \<times> call"

definition step :: "contract \<Rightarrow> tx \<Rightarrow> contract" where
  "step s t = (case exec s (fst t) (fst (snd t)) (snd (snd t)) of Inl e \<Rightarrow> s | Inr s' \<Rightarrow> s')"

fun run :: "contract \<Rightarrow> tx list \<Rightarrow> contract" where
  "run s [] = s"
| "run s (t # ts) = run (step s t) ts"

text \<open>The storages the deployed contract can be in.\<close>

inductive reachable :: "contract \<Rightarrow> bool" where
  deployed: "reachable (constructor deployer)"
| called: "reachable s \<Longrightarrow> exec s sender now c = Inr s' \<Longrightarrow> reachable s'"

section \<open>Notions the properties are stated with\<close>

text \<open>
  The number of submitted votes one entry has among the round's voters, and the
  aggregates of a round: every entry of the snapshot, in snapshot order, paired with the
  sum of the plaintexts its votes consume. An entry with \<open>k\<close> submitted votes consumes
  the next \<open>k\<close> plaintexts (fewer when the list runs out); the sums are natural numbers,
  not reduced modulo 256.
\<close>

definition votedCount :: "(address \<Rightarrow> Vote) \<Rightarrow> address list \<Rightarrow> nat" where
  "votedCount vt vs = length (filter (\<lambda>v. hasVoted (vt v)) vs)"

fun aggregates ::
  "(uint8 \<Rightarrow> address \<Rightarrow> Vote) \<Rightarrow> address list \<Rightarrow> uint8 list \<Rightarrow> uint8 list \<Rightarrow>
     (uint8 \<times> nat) list" where
  "aggregates vr vs [] ds = []"
| "aggregates vr vs (p # ps) ds =
     (p, sum_list (map unat (take (votedCount (vr p) vs) ds)))
       # aggregates vr vs ps (drop (votedCount (vr p) vs) ds)"

definition roundAggregates :: "contract \<Rightarrow> uint8 list \<Rightarrow> (uint8 \<times> nat) list" where
  "roundAggregates s ds =
     aggregates (votes s (currentVotingRound s))
       (voters (votingRounds s (currentVotingRound s)))
       (projectIds (votingRounds s (currentVotingRound s))) ds"

text \<open>Some aggregate does not fit a \<^verbatim>\<open>uint8\<close>.\<close>

definition overflows :: "(uint8 \<times> nat) list \<Rightarrow> bool" where
  "overflows aggs = list_ex (\<lambda>pa. 255 < snd pa) aggs"

text \<open>
  The greatest aggregate (0 for an empty snapshot), and the first entry in snapshot
  order whose aggregate is the greatest.
\<close>

definition maxAggregate :: "(uint8 \<times> nat) list \<Rightarrow> nat" where
  "maxAggregate aggs = fold max (map snd aggs) 0"

definition firstMaxEntry :: "(uint8 \<times> nat) list \<Rightarrow> (uint8 \<times> nat) option" where
  "firstMaxEntry aggs = find (\<lambda>pa. snd pa = maxAggregate aggs) aggs"

text \<open>The outer loop of the reduction, on the aggregates: replace on strictly greater.\<close>

fun pick :: "uint8 \<Rightarrow> nat \<Rightarrow> (uint8 \<times> nat) list \<Rightarrow> uint8 \<times> nat" where
  "pick w m [] = (w, m)"
| "pick w m (pa # r) = (if m < snd pa then pick (fst pa) (snd pa) r else pick w m r)"

text \<open>
  The size of the batch \<^verbatim>\<open>_requestResultsDecryption\<close> builds for the current round:
  its \<^verbatim>\<open>totalVotes\<close>.
\<close>

definition batchSize :: "contract \<Rightarrow> nat" where
  "batchSize s =
     countVotes (votes s (currentVotingRound s))
       (voters (votingRounds s (currentVotingRound s)))
       (projectIds (votingRounds s (currentVotingRound s))) 0"

text \<open>The ids the \<^verbatim>\<open>ProjectProposed\<close> events of a trace announce, in order.\<close>

fun proposedIds :: "event list \<Rightarrow> uint8 list" where
  "proposedIds [] = []"
| "proposedIds (ProjectProposed i n a # es) = i # proposedIds es"
| "proposedIds (e # es) = proposedIds es"

text \<open>An id is a registered, active entry.\<close>

definition registeredActive :: "contract \<Rightarrow> uint8 \<Rightarrow> bool" where
  "registeredActive s i \<longleftrightarrow> 1 \<le> i \<and> i \<le> totalProjects s \<and> isActive (projects s i)"

text \<open>
  The current round is not revealed, and the rounds beyond the round counter have never
  been written.
\<close>

definition roundsAheadFresh :: "contract \<Rightarrow> bool" where
  "roundsAheadFresh s \<longleftrightarrow>
     \<not> resultsRevealed (votingRounds s (currentVotingRound s)) \<and>
     (\<forall>r. currentVotingRound s < r \<longrightarrow> votingRounds s r = zeroRound)"

text \<open>Only registered ids are active; the announced ids are \<open>1, 2, \<dots>, totalProjects\<close>.\<close>

definition activeWithinTotal :: "contract \<Rightarrow> bool" where
  "activeWithinTotal s \<longleftrightarrow> (\<forall>i. isActive (projects s i) \<longrightarrow> 1 \<le> i \<and> i \<le> totalProjects s)"


section \<open>Scenarios\<close>

text \<open>
  Address 1 deploys the contract, proposes project 1, authorizes address 2 and opens
  round 1 over \<open>[1]\<close>; addresses 1 and 2 vote 8 and 9 for project 1; the administrator
  closes the round, which requests the decryption of the two votes. Address 3 is never
  authorized.
\<close>

definition demo_open :: contract where
  "demo_open = run (constructor 1)
     [(1, 10, ProposeProject ''A'' ''a'' ''art''), (1, 11, AuthorizeVoter 2),
      (1, 12, StartVotingRound [1])]"

definition demo_voted :: contract where
  "demo_voted = run demo_open [(1, 13, SubmitVote 1 8), (2, 14, SubmitVote 1 9)]"

definition demo_closed :: contract where
  "demo_closed = run demo_voted [(1, 15, EndVotingRound)]"

text \<open>Address 3 delivers the plaintexts \<open>[8, 9]\<close> for request 7 to the closed round.\<close>

definition demo_revealed :: contract where
  "demo_revealed = run demo_closed [(3, 16, ProcessResults 7 [8, 9] [])]"

text \<open>
  After that delivery the administrator opens round 2 over \<open>[1]\<close>, and addresses 1 and
  2 vote 8 and 9 for project 1 again.
\<close>

definition demo_round2 :: contract where
  "demo_round2 = run demo_revealed
     [(1, 17, StartVotingRound [1]), (1, 18, SubmitVote 1 8), (2, 19, SubmitVote 1 9)]"

text \<open>
  A round over \<open>[2, 1]\<close>, in that order: address 1 votes 5 for project 1, then address 2
  votes 5 for project 2, and the round is closed.
\<close>

definition demo_tie :: contract where
  "demo_tie = run (constructor 1)
     [(2, 10, ProposeProject ''A'' ''a'' ''art''), (2, 11, ProposeProject ''B'' ''b'' ''music''),
      (1, 12, AuthorizeVoter 2), (1, 13, StartVotingRound [2, 1]),
      (1, 14, SubmitVote 1 5), (2, 15, SubmitVote 2 5), (1, 16, EndVotingRound)]"

text \<open>Address 2 proposes project 1 on the freshly deployed contract.\<close>

definition demo_proposed :: contract where
  "demo_proposed = run (constructor 1) [(2, 10, ProposeProject ''A'' ''a'' ''art'')]"

text \<open>
  Address 3 calls \<^verbatim>\<open>processResults\<close> 254 times on the freshly deployed contract, which
  takes the round counter from 1 to 255; then project 1 is proposed and the administrator
  opens round 255 over \<open>[1]\<close>.
\<close>

definition demo_round255 :: contract where
  "demo_round255 = run (run (constructor 1) (replicate 254 (3, 20, ProcessResults 0 [] [])))
     [(2, 21, ProposeProject ''A'' ''a'' ''art''), (1, 22, StartVotingRound [1])]"

section \<open>Evaluation and arithmetic of \<^verbatim>\<open>uint8\<close>\<close>

lemmas eval_defs = demo_open_def demo_voted_def demo_closed_def demo_revealed_def demo_tie_def
  demo_round2_def   step_def constructor_def
  proposeProject_def authorizeVoter_def revokeVoter_def startVotingRound_def submitVote_def
  endVotingRound_def requestResultsDecryption_def finalizeResults_def processResults_def
  tally_def addVoterToRound_def isProjectInCurrentRound_def zeroRound_def zeroVote_def
  zeroProject_def Let_def

lemma unat_uint8_le: "unat (w :: uint8) \<le> 255"
proof -
  have "unat w < 2 ^ LENGTH(8)" by (rule unsigned_less)
  then show ?thesis by simp
qed

lemma unat_uint8_add:
  "\<not> 255 < unat (a :: uint8) + unat b \<Longrightarrow> unat (a + b) = unat a + unat b"
  by (simp add: unat_word_ariths)

lemma uint8_succ:
  assumes "a \<noteq> (255 :: uint8)"
  shows "unat (a + 1) = Suc (unat a)"
proof -
  have "unat a \<noteq> unat (255 :: uint8)" using assms by (simp add: word_unat_eq_iff)
  then have "unat a < 255" using unat_uint8_le [of a] by simp
  then show ?thesis by (simp add: unat_word_ariths)
qed

lemma uint8_less_succ: "a \<noteq> (255 :: uint8) \<Longrightarrow> a < a + 1"
  by (simp add: word_less_nat_alt uint8_succ)

lemma uint8_succ_less: "a \<noteq> (255 :: uint8) \<Longrightarrow> a + 1 < r \<Longrightarrow> a < r"
  by (simp add: word_less_nat_alt uint8_succ)

lemma uint8_le_succ_neq: "a \<noteq> (255 :: uint8) \<Longrightarrow> i \<le> a \<Longrightarrow> i \<noteq> a + 1"
  by (auto simp: word_le_nat_alt uint8_succ)

lemma uint8_le_succ_iff:
  "a \<noteq> (255 :: uint8) \<Longrightarrow> i \<le> a + 1 \<longleftrightarrow> i \<le> a \<or> i = a + 1"
  by (auto simp: word_le_nat_alt uint8_succ word_unat_eq_iff)

section \<open>What a successful call returns\<close>

lemma finalizeResults_Inr:
  assumes "finalizeResults s w m = Inr s'"
  shows "currentVotingRound s \<noteq> 255 \<and>
         s' = s\<lparr>votingRounds := (votingRounds s)(currentVotingRound s :=
                    (votingRounds s (currentVotingRound s))
                      \<lparr>winningProjectId := w, maxScore := m, resultsRevealed := True\<rparr>),
                 trace := trace s @ [ResultsRevealed (currentVotingRound s) w m],
                 currentVotingRound := currentVotingRound s + 1\<rparr>"
  using assms by (simp add: finalizeResults_def Let_def split: if_splits)

lemma processResults_Inr:
  assumes "processResults s sender rid ds sg = Inr s'"
  shows "\<exists>w m. tally s ds = Inr (w, m) \<and> finalizeResults s w m = Inr s'"
  using assms by (auto simp: processResults_def split: sum.splits prod.splits)

section \<open>The reduction in closed form\<close>

lemma votedCount_Cons:
  "votedCount vt (v # vs) = (if hasVoted (vt v) then Suc (votedCount vt vs) else votedCount vt vs)"
  by (simp add: votedCount_def)

lemma votedCount_Nil: "votedCount vt [] = 0"
  by (simp add: votedCount_def)

lemma tallyVoters_eq:
  "tallyVoters vt ds vs ps si =
     (if 255 < unat ps + sum_list (map unat (take (votedCount vt vs) (drop si ds))) then Inl Panic
      else Inr (of_nat (unat ps + sum_list (map unat (take (votedCount vt vs) (drop si ds)))),
                si + length (take (votedCount vt vs) (drop si ds))))"
proof (induction vs arbitrary: ps si)
  case Nil
  show ?case using unat_uint8_le [of ps] by (simp add: votedCount_Nil)
next
  case (Cons v vs)
  show ?case
  proof (cases "hasVoted (vt v)")
    case False
    then show ?thesis using Cons.IH [of ps si] by (simp add: votedCount_Cons)
  next
    case True
    show ?thesis
    proof (cases "si < length ds")
      case False
      then show ?thesis using True Cons.IH [of ps si] by (simp add: votedCount_Cons)
    next
      case inrange: True
      have dr: "drop si ds = ds ! si # drop (Suc si) ds"
        using inrange by (simp add: Cons_nth_drop_Suc)
      show ?thesis
      proof (cases "255 < unat ps + unat (ds ! si)")
        case True
        then show ?thesis using \<open>hasVoted (vt v)\<close> inrange dr
          by (simp add: votedCount_Cons)
      next
        case False
        then have u: "unat (ps + ds ! si) = unat ps + unat (ds ! si)"
          by (rule unat_uint8_add)
        show ?thesis using \<open>hasVoted (vt v)\<close> inrange dr False u
          Cons.IH [of "ps + ds ! si" "Suc si"]
          by (simp add: votedCount_Cons add.assoc)
      qed
    qed
  qed
qed

lemma drop_length_take: "drop (length (take k xs)) xs = drop k xs"
  by (cases "k \<le> length xs") (simp_all add: min_def)

lemma tallyProjects_eq:
  "tallyProjects vr ds vs ps w m si =
     (if overflows (aggregates vr vs ps (drop si ds)) then Inl Panic
      else Inr (fst (pick w (unat m) (aggregates vr vs ps (drop si ds))),
                of_nat (snd (pick w (unat m) (aggregates vr vs ps (drop si ds))))))"
proof (induction ps arbitrary: w m si)
  case Nil
  show ?case by (simp add: overflows_def)
next
  case (Cons p ps)
  let ?k = "votedCount (vr p) vs"
  let ?t = "sum_list (map unat (take ?k (drop si ds)))"
  let ?si = "si + length (take ?k (drop si ds))"
  have dr: "drop ?si ds = drop ?k (drop si ds)"
    using drop_length_take [of ?k "drop si ds"] by (simp add: add.commute)
  show ?case
  proof (cases "255 < ?t")
    case True
    then show ?thesis by (simp add: tallyVoters_eq overflows_def)
  next
    case False
    then have un: "unat (of_nat ?t :: uint8) = ?t"
      by (simp add: unat_of_nat)
    have lt: "m < (of_nat ?t :: uint8) \<longleftrightarrow> unat m < ?t"
      using un by (simp add: word_less_nat_alt)
    have tv: "tallyVoters (vr p) ds vs 0 si = Inr (of_nat ?t, ?si)"
      using False by (simp add: tallyVoters_eq)
    show ?thesis
    proof (cases "unat m < ?t")
      case True
      then show ?thesis
        using False tv lt un dr Cons.IH [of p "of_nat ?t" ?si]
        by (simp add: overflows_def)
    next
      case nlt: False
      then show ?thesis
        using False tv lt dr Cons.IH [of w m ?si]
        by (simp add: overflows_def)
    qed
  qed
qed

lemma fold_max_ge: "(m :: nat) \<le> fold max xs m"
proof (induction xs arbitrary: m)
  case Nil
  show ?case by simp
next
  case (Cons x xs)
  have "m \<le> max x m" by simp
  also have "\<dots> \<le> fold max xs (max x m)" by (rule Cons.IH)
  finally show ?case by simp
qed

lemma pick_eq:
  "pick w m aggs =
     (if fold max (map snd aggs) m = m then (w, m)
      else (fst (the (find (\<lambda>pa. snd pa = fold max (map snd aggs) m) aggs)),
            fold max (map snd aggs) m))"
proof (induction aggs arbitrary: w m)
  case Nil
  show ?case by simp
next
  case (Cons pa r)
  show ?case
  proof (cases "m < snd pa")
    case True
    then have mx: "max (snd pa) m = snd pa" by simp
    have ge: "snd pa \<le> fold max (map snd r) (snd pa)" by (rule fold_max_ge)
    show ?thesis using True mx ge Cons.IH [of "fst pa" "snd pa"] by auto
  next
    case False
    then have mx: "max (snd pa) m = m" by simp
    have ge: "m \<le> fold max (map snd r) m" by (rule fold_max_ge)
    show ?thesis using False mx ge Cons.IH [of w m] by auto
  qed
qed

lemma fold_max_attained: "fold max xs (m :: nat) = m \<or> fold max xs m \<in> set xs"
proof (induction xs arbitrary: m)
  case Nil
  show ?case by simp
next
  case (Cons x xs)
  show ?case using Cons.IH [of "max x m"] by (auto simp: max_def split: if_splits)
qed

lemma fold_max_upper: "x \<in> set xs \<Longrightarrow> (x :: nat) \<le> fold max xs m"
proof (induction xs arbitrary: m)
  case Nil
  then show ?case by simp
next
  case (Cons y ys)
  show ?case
  proof (cases "x = y")
    case True
    have "x \<le> max y m" using True by simp
    also have "\<dots> \<le> fold max ys (max y m)" by (rule fold_max_ge)
    finally show ?thesis by simp
  next
    case False
    then have "x \<in> set ys" using Cons.prems by simp
    then show ?thesis using Cons.IH [of "max y m"] by simp
  qed
qed

lemma maxAggregate_upper: "pa \<in> set aggs \<Longrightarrow> snd pa \<le> maxAggregate aggs"
  unfolding maxAggregate_def by (rule fold_max_upper) simp

lemma firstMaxEntry_Some:
  assumes "0 < maxAggregate aggs"
  shows "\<exists>p. firstMaxEntry aggs = Some (p, maxAggregate aggs)"
proof -
  have "maxAggregate aggs \<in> set (map snd aggs)"
    using assms fold_max_attained [of "map snd aggs" 0] by (simp add: maxAggregate_def)
  then obtain pa where pa: "pa \<in> set aggs" "snd pa = maxAggregate aggs" by auto
  then have "\<exists>x. x \<in> set aggs \<and> snd x = maxAggregate aggs" by blast
  then have "find (\<lambda>pa. snd pa = maxAggregate aggs) aggs \<noteq> None"
    by (simp add: find_None_iff)
  then obtain qb where qb: "find (\<lambda>pa. snd pa = maxAggregate aggs) aggs = Some qb" by auto
  then have "snd qb = maxAggregate aggs" by (auto simp: find_Some_iff)
  then have "qb = (fst qb, maxAggregate aggs)" by (cases qb) simp
  then show ?thesis using qb by (auto simp: firstMaxEntry_def)
qed

lemma pick_zero:
  "pick 0 0 aggs =
     (if maxAggregate aggs = 0 then (0, 0)
      else (fst (the (firstMaxEntry aggs)), maxAggregate aggs))"
  by (simp add: pick_eq maxAggregate_def firstMaxEntry_def)

section \<open>Invariants of the reachable storages\<close>

lemma roundsAheadFresh_finalize:
  assumes "roundsAheadFresh s" "finalizeResults s w m = Inr s'"
  shows "roundsAheadFresh s'"
proof -
  from finalizeResults_Inr [OF assms(2)] have ne: "currentVotingRound s \<noteq> 255"
    and s': "s' = s\<lparr>votingRounds := (votingRounds s)(currentVotingRound s :=
                    (votingRounds s (currentVotingRound s))
                      \<lparr>winningProjectId := w, maxScore := m, resultsRevealed := True\<rparr>),
                 trace := trace s @ [ResultsRevealed (currentVotingRound s) w m],
                 currentVotingRound := currentVotingRound s + 1\<rparr>" by simp_all
  have lt: "currentVotingRound s < currentVotingRound s + 1" using ne by (rule uint8_less_succ)
  then have z: "votingRounds s (currentVotingRound s + 1) = zeroRound"
    using assms(1) by (simp add: roundsAheadFresh_def)
  have neq: "currentVotingRound s + 1 \<noteq> currentVotingRound s" using lt by simp
  show ?thesis
    unfolding roundsAheadFresh_def
  proof (intro conjI allI impI)
    show "\<not> resultsRevealed (votingRounds s' (currentVotingRound s'))"
      using s' z neq by (simp add: zeroRound_def)
  next
    fix r assume "currentVotingRound s' < r"
    then have a: "currentVotingRound s + 1 < r" using s' by simp
    then have b: "currentVotingRound s < r" using ne uint8_succ_less by blast
    then have "r \<noteq> currentVotingRound s" by simp
    then show "votingRounds s' r = zeroRound"
      using s' b assms(1) by (simp add: roundsAheadFresh_def)
  qed
qed

lemma roundsAheadFresh_exec:
  assumes "roundsAheadFresh s" "exec s sender now c = Inr s'"
  shows "roundsAheadFresh s'"
proof (cases c)
  case (ProposeProject n d ca)
  then show ?thesis using assms
    by (auto simp: roundsAheadFresh_def proposeProject_def Let_def split: if_splits)
next
  case (AuthorizeVoter v)
  then show ?thesis using assms
    by (auto simp: roundsAheadFresh_def authorizeVoter_def split: if_splits)
next
  case (RevokeVoter v)
  then show ?thesis using assms
    by (auto simp: roundsAheadFresh_def revokeVoter_def split: if_splits)
next
  case (StartVotingRound ids)
  then show ?thesis using assms
    by (auto simp: roundsAheadFresh_def startVotingRound_def split: if_splits)
next
  case (SubmitVote p sc)
  then show ?thesis using assms
    by (auto simp: roundsAheadFresh_def submitVote_def addVoterToRound_def Let_def split: if_splits)
next
  case EndVotingRound
  let ?s1 = "s\<lparr>votingRounds := (votingRounds s)(currentVotingRound s :=
                (votingRounds s (currentVotingRound s))\<lparr>votingActive := False, endTime := now\<rparr>)\<rparr>"
  have f1: "roundsAheadFresh ?s1" using assms(1) by (auto simp: roundsAheadFresh_def)
  have "requestResultsDecryption ?s1 = Inr s'"
    using assms(2) EndVotingRound by (simp add: endVotingRound_def Let_def split: if_splits)
  then consider "s' = ?s1\<lparr>trace := trace ?s1 @ [RequestDecryption
        (collectVotes (votes ?s1 (currentVotingRound ?s1))
           (voters (votingRounds ?s1 (currentVotingRound ?s1)))
           (projectIds (votingRounds ?s1 (currentVotingRound ?s1))) [])]\<rparr>"
    | "finalizeResults ?s1 0 0 = Inr s'"
    by (auto simp: requestResultsDecryption_def Let_def split: if_splits)
  then show ?thesis
  proof cases
    case 1
    then show ?thesis using f1 by (auto simp: roundsAheadFresh_def)
  next
    case 2
    then show ?thesis using f1 roundsAheadFresh_finalize by blast
  qed
next
  case (ProcessResults rid ds sg)
  then obtain w m where "finalizeResults s w m = Inr s'"
    using assms(2) processResults_Inr by fastforce
  then show ?thesis using assms(1) roundsAheadFresh_finalize by blast
qed

lemma roundsAheadFresh_reachable: "reachable s \<Longrightarrow> roundsAheadFresh s"
proof (induction rule: reachable.induct)
  case (deployed deployer)
  show ?case by (simp add: roundsAheadFresh_def constructor_def zeroRound_def)
next
  case (called s sender now c s')
  then show ?case using roundsAheadFresh_exec by blast
qed

section \<open>Runs, frames and the registry\<close>

lemma run_append: "run s (xs @ ys) = run (run s xs) ys"
  by (induction xs arbitrary: s) simp_all

lemma reachable_step: "reachable s \<Longrightarrow> reachable (step s t)"
  by (cases "exec s (fst t) (fst (snd t)) (snd (snd t))")
     (auto simp: step_def intro: reachable.called)

lemma reachable_run: "reachable s \<Longrightarrow> reachable (run s txs)"
  by (induction txs arbitrary: s) (simp_all add: reachable_step)

lemma reachable_from_constructor: "reachable (run (constructor d) txs)"
  by (rule reachable_run) (rule reachable.deployed)

text \<open>Every call but proposeProject leaves the registry and the proposal events alone.\<close>

lemma proposedIds_append: "proposedIds (xs @ ys) = proposedIds xs @ proposedIds ys"
  by (induction xs rule: proposedIds.induct) simp_all

lemma requestResultsDecryption_registry:
  assumes "requestResultsDecryption s = Inr s'"
  shows "projects s' = projects s \<and> totalProjects s' = totalProjects s \<and>
         proposedIds (trace s') = proposedIds (trace s) \<and> votes s' = votes s"
  using assms
  by (auto simp: requestResultsDecryption_def Let_def proposedIds_append
        dest!: finalizeResults_Inr split: if_splits)

lemma exec_registry:
  assumes "exec s sender now c = Inr s'"
  shows "(\<exists>n d ca. c = ProposeProject n d ca) \<or>
         (projects s' = projects s \<and> totalProjects s' = totalProjects s \<and>
          proposedIds (trace s') = proposedIds (trace s))"
proof (cases c)
  case (ProposeProject n d ca)
  then show ?thesis by simp
next
  case (AuthorizeVoter v)
  then show ?thesis using assms
    by (auto simp: authorizeVoter_def proposedIds_append split: if_splits)
next
  case (RevokeVoter v)
  then show ?thesis using assms
    by (auto simp: revokeVoter_def proposedIds_append split: if_splits)
next
  case (StartVotingRound ids)
  then show ?thesis using assms
    by (auto simp: startVotingRound_def proposedIds_append split: if_splits)
next
  case (SubmitVote p sc)
  then show ?thesis using assms
    by (auto simp: submitVote_def addVoterToRound_def Let_def proposedIds_append
          split: if_splits)
next
  case EndVotingRound
  then show ?thesis using assms
    by (auto simp: endVotingRound_def Let_def dest!: requestResultsDecryption_registry
          split: if_splits)
next
  case (ProcessResults rid ds sg)
  then show ?thesis using assms
    by (auto simp: proposedIds_append dest!: processResults_Inr finalizeResults_Inr)
qed

lemma proposeProject_Inr:
  assumes "proposeProject s sender now n d c = Inr s'"
  shows "totalProjects s \<noteq> 255 \<and>
         s' = s\<lparr>totalProjects := totalProjects s + 1,
                projects := (projects s)(totalProjects s + 1 :=
                  \<lparr>name = n, description = d, category = c, proposer = sender,
                   isActive = True, proposalTime = now\<rparr>),
                trace := trace s @ [ProjectProposed (totalProjects s + 1) n sender]\<rparr>"
  using assms by (simp add: proposeProject_def Let_def split: if_splits)

lemma exec_projects_kept:
  assumes "exec s sender now c = Inr s'"
  shows "(isActive (projects s i) \<longrightarrow> isActive (projects s' i)) \<and>
         (i \<le> totalProjects s \<longrightarrow> projects s' i = projects s i)"
proof (cases "\<exists>n d ca. c = ProposeProject n d ca")
  case False
  then show ?thesis using exec_registry [OF assms] by simp
next
  case True
  then obtain n d ca where c: "c = ProposeProject n d ca" by blast
  then have p: "proposeProject s sender now n d ca = Inr s'" using assms by simp
  from proposeProject_Inr [OF p] show ?thesis
    by (auto dest: uint8_le_succ_neq)
qed

lemma activeWithinTotal_exec:
  assumes "activeWithinTotal s" "exec s sender now c = Inr s'"
  shows "activeWithinTotal s'"
proof (cases "\<exists>n d ca. c = ProposeProject n d ca")
  case False
  then show ?thesis using exec_registry [OF assms(2)] assms(1)
    by (simp add: activeWithinTotal_def)
next
  case True
  then obtain n d ca where c: "c = ProposeProject n d ca" by blast
  then have p: "proposeProject s sender now n d ca = Inr s'" using assms by simp
  from proposeProject_Inr [OF p] have ne: "totalProjects s \<noteq> 255"
    and s': "projects s' = (projects s)(totalProjects s + 1 :=
                  \<lparr>name = n, description = d, category = ca, proposer = sender,
                   isActive = True, proposalTime = now\<rparr>)"
            "totalProjects s' = totalProjects s + 1" by simp_all
  have one: "1 \<le> totalProjects s + 1"
    using ne by (simp add: word_le_nat_alt uint8_succ)
  show ?thesis
    unfolding activeWithinTotal_def
  proof (intro allI impI)
    fix i assume a: "isActive (projects s' i)"
    show "1 \<le> i \<and> i \<le> totalProjects s'"
    proof (cases "i = totalProjects s + 1")
      case True
      then show ?thesis using one s' by simp
    next
      case False
      then have "isActive (projects s i)" using a s' by simp
      then have "1 \<le> i \<and> i \<le> totalProjects s"
        using assms(1) by (simp add: activeWithinTotal_def)
      then show ?thesis using s' ne by (simp add: uint8_le_succ_iff)
    qed
  qed
qed

lemma activeWithinTotal_reachable: "reachable s \<Longrightarrow> activeWithinTotal s"
proof (induction rule: reachable.induct)
  case (deployed deployer)
  show ?case by (simp add: activeWithinTotal_def constructor_def zeroProject_def)
next
  case (called s sender now c s')
  then show ?case using activeWithinTotal_exec by blast
qed



lemma exec_votes_kept:
  assumes "exec s sender now c = Inr s'" "hasVoted (votes s r p v)"
  shows "votes s' r p v = votes s r p v"
proof (cases c)
  case (ProposeProject n d ca)
  then show ?thesis using assms(1) by (auto dest!: proposeProject_Inr)
next
  case (AuthorizeVoter x)
  then show ?thesis using assms(1) by (auto simp: authorizeVoter_def split: if_splits)
next
  case (RevokeVoter x)
  then show ?thesis using assms(1) by (auto simp: revokeVoter_def split: if_splits)
next
  case (StartVotingRound ids)
  then show ?thesis using assms(1) by (auto simp: startVotingRound_def split: if_splits)
next
  case (SubmitVote q sc)
  then show ?thesis using assms
    by (auto simp: submitVote_def addVoterToRound_def Let_def split: if_splits)
next
  case EndVotingRound
  then show ?thesis using assms(1)
    by (auto simp: endVotingRound_def Let_def dest!: requestResultsDecryption_registry
          split: if_splits)
next
  case (ProcessResults rid ds sg)
  then show ?thesis using assms(1)
    by (auto dest!: processResults_Inr finalizeResults_Inr)
qed

lemma step_votes_kept: "hasVoted (votes s r p v) \<Longrightarrow> votes (step s t) r p v = votes s r p v"
  by (cases "exec s (fst t) (fst (snd t)) (snd (snd t))")
     (auto simp: step_def dest: exec_votes_kept)

lemma run_votes_kept: "hasVoted (votes s r p v) \<Longrightarrow> votes (run s txs) r p v = votes s r p v"
proof (induction txs arbitrary: s)
  case Nil
  show ?case by simp
next
  case (Cons t txs)
  have "votes (step s t) r p v = votes s r p v" using Cons.prems by (rule step_votes_kept)
  then show ?case using Cons.IH [of "step s t"] Cons.prems by simp
qed

lemma submitVote_Inr_vote:
  assumes "submitVote s a now p sc = Inr s1"
  shows "votes s1 (currentVotingRound s) p a =
           \<lparr>encryptedScore = AsEuint8 sc, hasVoted = True, timestamp = now\<rparr>"
  using assms
  by (auto simp: submitVote_def addVoterToRound_def Let_def split: if_splits)

lemma requireActive_registered:
  assumes "activeWithinTotal s"
  shows "requireActive (projects s) ids \<longleftrightarrow> \<not> list_ex (\<lambda>i. \<not> registeredActive s i) ids"
  using assms
  by (induction ids) (auto simp: registeredActive_def activeWithinTotal_def)

lemma demo_proposed_facts:
  "admin demo_proposed = 1" "currentVotingRound demo_proposed = 1"
  "\<not> votingActive (votingRounds demo_proposed 1)" "totalProjects demo_proposed = 1"
  "isActive (projects demo_proposed 1)" "\<not> isActive (projects demo_proposed 2)"
  by (simp_all add: demo_proposed_def eval_defs)

lemma countVoters_no_voters: "countVoters vt [] n = n"
  by simp

lemma countVotes_no_voters: "countVotes vr [] ps n = n"
  by (induction ps arbitrary: n) simp_all

text \<open>Calls of \<^verbatim>\<open>processResults\<close> on rounds never opened advance the round counter.\<close>

lemma processResults_fresh_round:
  assumes "votingRounds s (currentVotingRound s) = zeroRound" "currentVotingRound s \<noteq> 255"
  shows "processResults s sender rid ds sg =
     Inr (s\<lparr>votingRounds := (votingRounds s)(currentVotingRound s :=
                zeroRound\<lparr>resultsRevealed := True\<rparr>),
             trace := trace s @ [ResultsRevealed (currentVotingRound s) 0 0],
             currentVotingRound := currentVotingRound s + 1\<rparr>)"
  using assms
  by (simp add: processResults_def tally_def finalizeResults_def Let_def zeroRound_def)

lemma uint8_of_nat_Suc_neq: "k < 254 \<Longrightarrow> (of_nat (Suc k) :: uint8) \<noteq> 255"
proof
  assume k: "k < 254" and e: "(of_nat (Suc k) :: uint8) = 255"
  have "unat (of_nat (Suc k) :: uint8) = Suc k mod 2 ^ LENGTH(8)" by (rule unat_of_nat)
  then have "unat (of_nat (Suc k) :: uint8) = Suc k" using k by simp
  then show False using e k by simp
qed

lemma idle_rounds:
  assumes "k \<le> 254"
  shows "currentVotingRound (run (constructor d) (replicate k (a, t, ProcessResults rid ds sg)))
           = of_nat (Suc k) \<and>
         admin (run (constructor d) (replicate k (a, t, ProcessResults rid ds sg))) = d \<and>
         totalProjects (run (constructor d) (replicate k (a, t, ProcessResults rid ds sg))) = 0 \<and>
         votingRounds (run (constructor d) (replicate k (a, t, ProcessResults rid ds sg)))
           (of_nat (Suc k)) = zeroRound"
  using assms
proof (induction k)
  case 0
  show ?case by (simp add: constructor_def)
next
  case (Suc k)
  let ?tx = "(a, t, ProcessResults rid ds sg)"
  let ?X = "run (constructor d) (replicate k ?tx)"
  have ih: "currentVotingRound ?X = of_nat (Suc k)" "admin ?X = d" "totalProjects ?X = 0"
    "votingRounds ?X (of_nat (Suc k)) = zeroRound"
    using Suc by simp_all
  have ne: "currentVotingRound ?X \<noteq> 255" using Suc.prems ih(1) uint8_of_nat_Suc_neq [of k] by simp
  have fr: "votingRounds ?X (currentVotingRound ?X) = zeroRound" using ih by simp
  have "reachable ?X" by (rule reachable_from_constructor)
  then have "roundsAheadFresh ?X" by (rule roundsAheadFresh_reachable)
  then have nx: "votingRounds ?X (currentVotingRound ?X + 1) = zeroRound"
    using uint8_less_succ [OF ne] by (simp add: roundsAheadFresh_def)
  have neq: "currentVotingRound ?X + 1 \<noteq> currentVotingRound ?X"
    using uint8_less_succ [OF ne] by simp
  have "replicate (Suc k) ?tx = replicate k ?tx @ [?tx]"
    by (simp add: replicate_append_same)
  then have r: "run (constructor d) (replicate (Suc k) ?tx) = step ?X ?tx"
    by (simp only: run_append run.simps)
  have st: "step ?X ?tx = ?X\<lparr>votingRounds := (votingRounds ?X)(currentVotingRound ?X :=
                zeroRound\<lparr>resultsRevealed := True\<rparr>),
             trace := trace ?X @ [ResultsRevealed (currentVotingRound ?X) 0 0],
             currentVotingRound := currentVotingRound ?X + 1\<rparr>"
    using processResults_fresh_round [OF fr ne] by (simp add: step_def)
  have cur: "currentVotingRound ?X + 1 = of_nat (Suc (Suc k))" using ih(1) by simp
  show ?case
    unfolding r st using ih nx neq cur by simp
qed

lemma demo_round255_facts:
  "currentVotingRound demo_round255 = 255" "admin demo_round255 = 1"
  "votingActive (votingRounds demo_round255 255)"
  "voters (votingRounds demo_round255 255) = []"
proof -
  let ?X = "run (constructor 1) (replicate 254 (3, 20, ProcessResults 0 [] []))"
  have x: "currentVotingRound ?X = 255" "admin ?X = 1" "totalProjects ?X = 0"
    "votingRounds ?X 255 = zeroRound"
    using idle_rounds [of 254 1 3 20 0 "[]" "[]"] by simp_all
  have d: "demo_round255 = run ?X
     [(2, 21, ProposeProject ''A'' ''a'' ''art''), (1, 22, StartVotingRound [1])]"
    by (simp add: demo_round255_def)
  show "currentVotingRound demo_round255 = 255" "admin demo_round255 = 1"
    "votingActive (votingRounds demo_round255 255)"
    "voters (votingRounds demo_round255 255) = []"
    unfolding d using x
    by (simp_all add: step_def proposeProject_def startVotingRound_def Let_def zeroRound_def)
qed

section \<open>The reduction on the aggregates\<close>

lemma tally_eq:
  "tally s ds =
     (if overflows (roundAggregates s ds) then Inl Panic
      else Inr (fst (pick 0 0 (roundAggregates s ds)),
                of_nat (snd (pick 0 0 (roundAggregates s ds)))))"
  using tallyProjects_eq [of "votes s (currentVotingRound s)" ds
      "voters (votingRounds s (currentVotingRound s))"
      "projectIds (votingRounds s (currentVotingRound s))" 0 0 0]
  by (simp add: tally_def roundAggregates_def Let_def)

lemma maxAggregate_fits:
  assumes "\<not> overflows aggs"
  shows "maxAggregate aggs \<le> 255"
proof (cases "maxAggregate aggs = 0")
  case True
  then show ?thesis by simp
next
  case False
  then obtain p where "firstMaxEntry aggs = Some (p, maxAggregate aggs)"
    using firstMaxEntry_Some [of aggs] by auto
  then have "(p, maxAggregate aggs) \<in> set aggs"
    by (auto simp: firstMaxEntry_def find_Some_iff)
  then show ?thesis using assms by (fastforce simp: overflows_def list_ex_iff)
qed

lemma firstMaxEntry_is_first:
  assumes "firstMaxEntry aggs = Some (p, m)"
  shows "\<exists>i<length aggs. aggs ! i = (p, m) \<and> (\<forall>j<i. snd (aggs ! j) < m) \<and>
           (\<forall>pa\<in>set aggs. snd pa \<le> m)"
proof -
  from assms obtain i where i: "i < length aggs" "snd (aggs ! i) = maxAggregate aggs"
    "(p, m) = aggs ! i" "\<forall>j<i. snd (aggs ! j) \<noteq> maxAggregate aggs"
    unfolding firstMaxEntry_def find_Some_iff by blast
  have m: "m = maxAggregate aggs" using i(2,3) by (metis snd_conv)
  have "\<forall>j<i. snd (aggs ! j) < m"
  proof (intro allI impI)
    fix j assume j: "j < i"
    then have "aggs ! j \<in> set aggs" using i(1) by simp
    then have "snd (aggs ! j) \<le> maxAggregate aggs" by (rule maxAggregate_upper)
    then show "snd (aggs ! j) < m" using i(4) j m by fastforce
  qed
  then show ?thesis using i(1,3) m maxAggregate_upper by fastforce
qed

lemma demo_aggregates:
  "roundAggregates demo_open [] = [(1, 0)]"
  "roundAggregates demo_closed [200, 100] = [(1, 300)]"
  "roundAggregates demo_closed [8, 9] = [(1, 17)]"
  "roundAggregates demo_tie [5, 5] = [(2, 5), (1, 5)]"
  by (simp_all add: roundAggregates_def votedCount_def eval_defs)

lemma demo_revealed_facts:
  "currentVotingRound demo_closed = 1" "currentVotingRound demo_revealed = 2"
  "winningProjectId (votingRounds demo_revealed 1) = 1"
  "maxScore (votingRounds demo_revealed 1) = 17"
  "processResults demo_closed 3 7 [8, 9] [] = Inr demo_revealed"
  by (simp_all add: eval_defs)

section \<open>The size of the batch\<close>

lemma countVoters_eq: "countVoters vt vs n = n + votedCount vt vs"
  by (induction vs arbitrary: n) (simp_all add: votedCount_def)

lemma countVotes_eq:
  "countVotes vr vs ps n = n + sum_list (map (\<lambda>p. votedCount (vr p) vs) ps)"
  by (induction ps arbitrary: n) (simp_all add: countVoters_eq)

lemma collectVoters_length: "length (collectVoters vt vs cts) = length cts + votedCount vt vs"
  by (induction vs arbitrary: cts) (simp_all add: votedCount_def)

lemma collectVotes_length:
  "length (collectVotes vr vs ps cts) =
     length cts + sum_list (map (\<lambda>p. votedCount (vr p) vs) ps)"
  by (induction ps arbitrary: cts) (simp_all add: collectVoters_length)

lemma batch_length:
  "length (collectVotes (votes s (currentVotingRound s))
             (voters (votingRounds s (currentVotingRound s)))
             (projectIds (votingRounds s (currentVotingRound s))) []) = batchSize s"
  by (simp add: batchSize_def countVotes_eq collectVotes_length)

lemma sum_take_padded:
  "sum_list (map unat (take k (ds @ replicate m (0 :: uint8)))) = sum_list (map unat (take k ds))"
  by simp

lemma aggregates_pad:
  assumes "sum_list (map (\<lambda>p. votedCount (vr p) vs) ps) \<le> n"
  shows "aggregates vr vs ps (take n (ds @ replicate m 0)) = aggregates vr vs ps ds"
  using assms
proof (induction ps arbitrary: n ds m)
  case Nil
  show ?case by simp
next
  case (Cons p ps)
  let ?k = "votedCount (vr p) vs"
  have k: "?k \<le> n" and rest: "sum_list (map (\<lambda>p. votedCount (vr p) vs) ps) \<le> n - ?k"
    using Cons.prems by simp_all
  have t: "take ?k (take n (ds @ replicate m 0)) = take ?k (ds @ replicate m 0)"
    using k by (simp add: min_def)
  have d: "drop ?k (take n (ds @ replicate m 0)) =
             take (n - ?k) (drop ?k ds @ replicate (m - (?k - length ds)) 0)"
    by (simp only: drop_take drop_append drop_replicate)
  show ?case
    using Cons.IH [OF rest, of "drop ?k ds" "m - (?k - length ds)"]
    by (simp only: aggregates.simps t d sum_take_padded)
qed

lemma roundAggregates_pad:
  "roundAggregates s (take (batchSize s) (ds @ replicate (batchSize s) 0)) = roundAggregates s ds"
  unfolding roundAggregates_def
  by (rule aggregates_pad) (simp add: batchSize_def countVotes_eq)

section \<open>Finalized rounds are never written again\<close>

text \<open>
  Every call writes only the round the counter names, and the counter never decreases:
  a round below the counter keeps all its fields through every run.
\<close>

lemma finalizeResults_past_rounds:
  assumes "finalizeResults s w m = Inr s'"
  shows "currentVotingRound s \<le> currentVotingRound s' \<and>
         (r < currentVotingRound s \<longrightarrow> votingRounds s' r = votingRounds s r)"
proof -
  from finalizeResults_Inr [OF assms] have ne: "currentVotingRound s \<noteq> 255"
    and c: "currentVotingRound s' = currentVotingRound s + 1"
    and v: "votingRounds s' = (votingRounds s)(currentVotingRound s :=
                    (votingRounds s (currentVotingRound s))
                      \<lparr>winningProjectId := w, maxScore := m, resultsRevealed := True\<rparr>)"
    by simp_all
  have "currentVotingRound s < currentVotingRound s + 1" using ne by (rule uint8_less_succ)
  then show ?thesis using c v by auto
qed

lemma exec_past_rounds:
  assumes "exec s sender now c = Inr s'"
  shows "currentVotingRound s \<le> currentVotingRound s' \<and>
         (r < currentVotingRound s \<longrightarrow> votingRounds s' r = votingRounds s r)"
proof (cases c)
  case (ProposeProject n d ca)
  then show ?thesis using assms by (auto dest!: proposeProject_Inr)
next
  case (AuthorizeVoter v)
  then show ?thesis using assms by (auto simp: authorizeVoter_def split: if_splits)
next
  case (RevokeVoter v)
  then show ?thesis using assms by (auto simp: revokeVoter_def split: if_splits)
next
  case (StartVotingRound ids)
  then show ?thesis using assms by (auto simp: startVotingRound_def split: if_splits)
next
  case (SubmitVote p sc)
  then show ?thesis using assms
    by (auto simp: submitVote_def addVoterToRound_def Let_def split: if_splits)
next
  case EndVotingRound
  let ?s1 = "s\<lparr>votingRounds := (votingRounds s)(currentVotingRound s :=
                (votingRounds s (currentVotingRound s))\<lparr>votingActive := False, endTime := now\<rparr>)\<rparr>"
  have "requestResultsDecryption ?s1 = Inr s'"
    using assms EndVotingRound by (simp add: endVotingRound_def Let_def split: if_splits)
  then consider "currentVotingRound s' = currentVotingRound ?s1 \<and> votingRounds s' = votingRounds ?s1"
    | "finalizeResults ?s1 0 0 = Inr s'"
    by (auto simp: requestResultsDecryption_def Let_def split: if_splits)
  then show ?thesis
  proof cases
    case 1
    then show ?thesis by auto
  next
    case 2
    from finalizeResults_past_rounds [OF 2, of r] show ?thesis by auto
  qed
next
  case (ProcessResults rid ds sg)
  then obtain w m where "finalizeResults s w m = Inr s'"
    using assms processResults_Inr by fastforce
  then show ?thesis by (rule finalizeResults_past_rounds)
qed

lemma step_past_rounds:
  assumes "r < currentVotingRound s"
  shows "r < currentVotingRound (step s t) \<and> votingRounds (step s t) r = votingRounds s r"
proof (cases "exec s (fst t) (fst (snd t)) (snd (snd t))")
  case (Inl e)
  then show ?thesis using assms by (simp add: step_def)
next
  case (Inr s')
  from exec_past_rounds [OF Inr, of r] show ?thesis using assms Inr by (auto simp: step_def)
qed

lemma run_past_rounds:
  assumes "r < currentVotingRound s"
  shows "r < currentVotingRound (run s txs) \<and> votingRounds (run s txs) r = votingRounds s r"
  using assms
proof (induction txs arbitrary: s)
  case Nil
  then show ?case by simp
next
  case (Cons t txs)
  from step_past_rounds [OF Cons.prems, of t]
  have a: "r < currentVotingRound (step s t)" and b: "votingRounds (step s t) r = votingRounds s r"
    by simp_all
  from Cons.IH [OF a] show ?case using b by simp
qed

lemma demo_round2_facts:
  "currentVotingRound demo_round2 = 2"
  "roundAggregates demo_round2 [8, 9] = [(1, 17)]"
  "roundAggregates demo_round2 [200, 100] = [(1, 300)]"
  "tally demo_round2 [8, 9] = Inr (1, 17)"
  by (simp_all add: roundAggregates_def votedCount_def eval_defs)

section \<open>A second callback for the same request\<close>

text \<open>
  C1 (as amended). \<open>processResults\<close> keeps no record of request ids and has no
  AlreadyProcessed failure. After an accepted invocation, a later invocation with the
  same \<open>requestId\<close>, made directly afterwards or after any further transactions, and
  with any plaintexts, is handled like any other invocation: it succeeds exactly when
  every aggregate of the round the counter then names fits a \<^verbatim>\<open>uint8\<close> and the round
  counter is below 255, and otherwise it reverts with the arithmetic panic. The round
  finalized by the first invocation keeps its winner fields (\<open>winningProjectId\<close>,
  \<open>maxScore\<close>) through the transactions in between and through the second call; but a
  successful second call finalizes another round, the one the counter then names: it
  writes that round's winner fields with the result of the reduction, sets its
  \<open>resultsRevealed\<close> and increments the round counter again. Made directly after the
  first invocation in a reachable storage, that round is the next round, never opened:
  below round counter 255 the second call succeeds and the winner it writes is 0.
\<close>

theorem processResults_twice:
  assumes "processResults s a rid ds sg = Inr s1"
  shows "votingRounds (run s1 txs) (currentVotingRound s) = votingRounds s1 (currentVotingRound s) \<and>
         (overflows (roundAggregates (run s1 txs) ds') \<or> currentVotingRound (run s1 txs) = 255 \<longrightarrow>
            processResults (run s1 txs) b rid ds' sg' = Inl Panic) \<and>
         (\<not> overflows (roundAggregates (run s1 txs) ds') \<and>
          currentVotingRound (run s1 txs) \<noteq> 255 \<longrightarrow>
            (\<exists>s3 w m. processResults (run s1 txs) b rid ds' sg' = Inr s3 \<and>
               tally (run s1 txs) ds' = Inr (w, m) \<and>
               winningProjectId (votingRounds s3 (currentVotingRound s)) =
                 winningProjectId (votingRounds s1 (currentVotingRound s)) \<and>
               maxScore (votingRounds s3 (currentVotingRound s)) =
                 maxScore (votingRounds s1 (currentVotingRound s)) \<and>
               currentVotingRound (run s1 txs) \<noteq> currentVotingRound s \<and>
               resultsRevealed (votingRounds s3 (currentVotingRound (run s1 txs))) \<and>
               winningProjectId (votingRounds s3 (currentVotingRound (run s1 txs))) = w \<and>
               maxScore (votingRounds s3 (currentVotingRound (run s1 txs))) = m \<and>
               currentVotingRound s3 = currentVotingRound (run s1 txs) + 1)) \<and>
         (reachable s \<and> currentVotingRound s1 \<noteq> 255 \<longrightarrow>
            (\<exists>s2. processResults s1 b rid ds' sg' = Inr s2 \<and>
               winningProjectId (votingRounds s2 (currentVotingRound s)) =
                 winningProjectId (votingRounds s1 (currentVotingRound s)) \<and>
               maxScore (votingRounds s2 (currentVotingRound s)) =
                 maxScore (votingRounds s1 (currentVotingRound s)) \<and>
               resultsRevealed (votingRounds s2 (currentVotingRound s + 1)) \<and>
               winningProjectId (votingRounds s2 (currentVotingRound s + 1)) = 0 \<and>
               maxScore (votingRounds s2 (currentVotingRound s + 1)) = 0 \<and>
               currentVotingRound s2 = currentVotingRound s + 2))"
proof -
  let ?r = "currentVotingRound s"
  let ?s2 = "run s1 txs"
  obtain w0 m0 where fin: "finalizeResults s w0 m0 = Inr s1"
    using assms processResults_Inr by blast
  then have ne: "?r \<noteq> 255" and c1: "currentVotingRound s1 = ?r + 1"
    using finalizeResults_Inr by fastforce+
  have lt: "?r < currentVotingRound s1" using c1 uint8_less_succ [OF ne] by simp
  from run_past_rounds [OF lt, of txs]
  have past: "?r < currentVotingRound ?s2" and kept: "votingRounds ?s2 ?r = votingRounds s1 ?r"
    by simp_all
  have neq2: "currentVotingRound ?s2 \<noteq> ?r" using past by simp
  have A: "votingRounds ?s2 ?r = votingRounds s1 ?r" by (rule kept)
  have B: "overflows (roundAggregates ?s2 ds') \<or> currentVotingRound ?s2 = 255 \<longrightarrow>
            processResults ?s2 b rid ds' sg' = Inl Panic"
    by (auto simp: processResults_def tally_eq finalizeResults_def Let_def)
  have C: "\<not> overflows (roundAggregates ?s2 ds') \<and> currentVotingRound ?s2 \<noteq> 255 \<longrightarrow>
            (\<exists>s3 w m. processResults ?s2 b rid ds' sg' = Inr s3 \<and>
               tally ?s2 ds' = Inr (w, m) \<and>
               winningProjectId (votingRounds s3 ?r) = winningProjectId (votingRounds s1 ?r) \<and>
               maxScore (votingRounds s3 ?r) = maxScore (votingRounds s1 ?r) \<and>
               currentVotingRound ?s2 \<noteq> ?r \<and>
               resultsRevealed (votingRounds s3 (currentVotingRound ?s2)) \<and>
               winningProjectId (votingRounds s3 (currentVotingRound ?s2)) = w \<and>
               maxScore (votingRounds s3 (currentVotingRound ?s2)) = m \<and>
               currentVotingRound s3 = currentVotingRound ?s2 + 1)"
  proof
    assume a: "\<not> overflows (roundAggregates ?s2 ds') \<and> currentVotingRound ?s2 \<noteq> 255"
    then obtain w m where t: "tally ?s2 ds' = Inr (w, m)" by (simp add: tally_eq)
    show "\<exists>s3 w m. processResults ?s2 b rid ds' sg' = Inr s3 \<and>
               tally ?s2 ds' = Inr (w, m) \<and>
               winningProjectId (votingRounds s3 ?r) = winningProjectId (votingRounds s1 ?r) \<and>
               maxScore (votingRounds s3 ?r) = maxScore (votingRounds s1 ?r) \<and>
               currentVotingRound ?s2 \<noteq> ?r \<and>
               resultsRevealed (votingRounds s3 (currentVotingRound ?s2)) \<and>
               winningProjectId (votingRounds s3 (currentVotingRound ?s2)) = w \<and>
               maxScore (votingRounds s3 (currentVotingRound ?s2)) = m \<and>
               currentVotingRound s3 = currentVotingRound ?s2 + 1"
      using a t neq2 kept by (simp add: processResults_def finalizeResults_def Let_def)
  qed
  have D: "reachable s \<and> currentVotingRound s1 \<noteq> 255 \<longrightarrow>
            (\<exists>s2. processResults s1 b rid ds' sg' = Inr s2 \<and>
               winningProjectId (votingRounds s2 ?r) = winningProjectId (votingRounds s1 ?r) \<and>
               maxScore (votingRounds s2 ?r) = maxScore (votingRounds s1 ?r) \<and>
               resultsRevealed (votingRounds s2 (?r + 1)) \<and>
               winningProjectId (votingRounds s2 (?r + 1)) = 0 \<and>
               maxScore (votingRounds s2 (?r + 1)) = 0 \<and>
               currentVotingRound s2 = ?r + 2)"
  proof
    assume h: "reachable s \<and> currentVotingRound s1 \<noteq> 255"
    have neq: "?r + 1 \<noteq> ?r" using uint8_less_succ [OF ne] by simp
    have "roundsAheadFresh s" using h roundsAheadFresh_reachable by blast
    then have "votingRounds s (?r + 1) = zeroRound"
      using uint8_less_succ [OF ne] by (simp add: roundsAheadFresh_def)
    then have z: "votingRounds s1 (currentVotingRound s1) = zeroRound"
      using fin neq by (auto dest!: finalizeResults_Inr)
    have n: "currentVotingRound s1 \<noteq> 255" using h by simp
    show "\<exists>s2. processResults s1 b rid ds' sg' = Inr s2 \<and>
               winningProjectId (votingRounds s2 ?r) = winningProjectId (votingRounds s1 ?r) \<and>
               maxScore (votingRounds s2 ?r) = maxScore (votingRounds s1 ?r) \<and>
               resultsRevealed (votingRounds s2 (?r + 1)) \<and>
               winningProjectId (votingRounds s2 (?r + 1)) = 0 \<and>
               maxScore (votingRounds s2 (?r + 1)) = 0 \<and>
               currentVotingRound s2 = ?r + 2"
      using processResults_fresh_round [OF z n, of b rid ds' sg'] c1 neq
      by (simp add: zeroRound_def)
  qed
  show ?thesis using A B C D by blast
qed

theorem processResults_twice_witness:
  "processResults demo_closed 3 7 [8, 9] [] = Inr demo_revealed \<and>
   reachable demo_closed \<and> currentVotingRound demo_revealed \<noteq> 255 \<and>
   (case processResults demo_revealed 3 7 [8, 9] [] of
      Inl e \<Rightarrow> False
    | Inr s2 \<Rightarrow> winningProjectId (votingRounds s2 1) = 1 \<and> maxScore (votingRounds s2 1) = 17 \<and>
        resultsRevealed (votingRounds s2 2) \<and> winningProjectId (votingRounds s2 2) = 0 \<and>
        currentVotingRound s2 = 3) \<and>
   votingRounds demo_round2 1 = votingRounds demo_revealed 1 \<and>
   \<not> overflows (roundAggregates demo_round2 [8, 9]) \<and> currentVotingRound demo_round2 \<noteq> 255 \<and>
   (case processResults demo_round2 3 7 [8, 9] [] of
      Inl e \<Rightarrow> False
    | Inr s3 \<Rightarrow> winningProjectId (votingRounds s3 1) = 1 \<and> maxScore (votingRounds s3 1) = 17 \<and>
        resultsRevealed (votingRounds s3 2) \<and> winningProjectId (votingRounds s3 2) = 1 \<and>
        maxScore (votingRounds s3 2) = 17 \<and> currentVotingRound s3 = 3) \<and>
   overflows (roundAggregates demo_round2 [200, 100]) \<and>
   processResults demo_round2 3 7 [200, 100] [] = Inl Panic"
proof -
  have h: "reachable demo_closed"
    unfolding demo_closed_def demo_voted_def demo_open_def
    by (intro reachable_run reachable.deployed)
  have d: "run demo_revealed
     [(1, 17, StartVotingRound [1]), (1, 18, SubmitVote 1 8), (2, 19, SubmitVote 1 9)] = demo_round2"
    by (simp add: demo_round2_def)
  show ?thesis
    using h demo_revealed_facts demo_round2_facts
      processResults_twice [OF demo_revealed_facts(5), of "[]" "[8, 9]" 3 "[]"]
      processResults_twice [OF demo_revealed_facts(5),
        of "[(1, 17, StartVotingRound [1]), (1, 18, SubmitVote 1 8), (2, 19, SubmitVote 1 9)]"
           "[8, 9]" 3 "[]"]
      processResults_twice [OF demo_revealed_facts(5),
        of "[(1, 17, StartVotingRound [1]), (1, 18, SubmitVote 1 8), (2, 19, SubmitVote 1 9)]"
           "[200, 100]" 3 "[]"]
    unfolding d
    by (auto simp: overflows_def)
qed

text \<open>
  The claim as stated fails: the second delivery for request 7 is accepted and reveals
  round 2, which was never opened.
\<close>

theorem processResults_twice_counterexample:
  "processResults demo_closed 3 7 [8, 9] [] = Inr demo_revealed \<and>
   \<not> isl (processResults demo_revealed 3 7 [8, 9] []) \<and>
   (case processResults demo_revealed 3 7 [8, 9] [] of
      Inl e \<Rightarrow> False
    | Inr s2 \<Rightarrow> resultsRevealed (votingRounds s2 2) \<and> currentVotingRound s2 = 3)"
  by (simp add: eval_defs)

section \<open>The callback has no guard\<close>

text \<open>
  C2 (as amended). \<open>processResults\<close> checks neither the caller, nor the state of the
  round, nor the request id: for every storage, caller, request id, plaintext list and
  signature list, it succeeds exactly when every aggregate of the round fits a
  \<^verbatim>\<open>uint8\<close> and the round counter is below 255, and then it sets the current round's
  \<open>resultsRevealed\<close>, writes the winner fields with the result of the reduction and
  increments \<open>currentVotingRound\<close> by exactly one; otherwise it reverts with the
  arithmetic panic.
\<close>

theorem processResults_unguarded:
  "(overflows (roundAggregates s ds) \<or> currentVotingRound s = 255 \<longrightarrow>
      processResults s sender rid ds sg = Inl Panic) \<and>
   (\<not> overflows (roundAggregates s ds) \<and> currentVotingRound s \<noteq> 255 \<longrightarrow>
      (\<exists>s' w m. processResults s sender rid ds sg = Inr s' \<and> tally s ds = Inr (w, m) \<and>
         resultsRevealed (votingRounds s' (currentVotingRound s)) \<and>
         winningProjectId (votingRounds s' (currentVotingRound s)) = w \<and>
         maxScore (votingRounds s' (currentVotingRound s)) = m \<and>
         currentVotingRound s' = currentVotingRound s + 1 \<and>
         unat (currentVotingRound s') = unat (currentVotingRound s) + 1))"
proof (intro conjI impI)
  assume "overflows (roundAggregates s ds) \<or> currentVotingRound s = 255"
  then show "processResults s sender rid ds sg = Inl Panic"
    by (auto simp: processResults_def tally_eq finalizeResults_def Let_def)
next
  assume a: "\<not> overflows (roundAggregates s ds) \<and> currentVotingRound s \<noteq> 255"
  then obtain w m where t: "tally s ds = Inr (w, m)" by (simp add: tally_eq)
  have u: "unat (currentVotingRound s + 1) = unat (currentVotingRound s) + 1"
    using a uint8_succ by simp
  show "\<exists>s' w m. processResults s sender rid ds sg = Inr s' \<and> tally s ds = Inr (w, m) \<and>
         resultsRevealed (votingRounds s' (currentVotingRound s)) \<and>
         winningProjectId (votingRounds s' (currentVotingRound s)) = w \<and>
         maxScore (votingRounds s' (currentVotingRound s)) = m \<and>
         currentVotingRound s' = currentVotingRound s + 1 \<and>
         unat (currentVotingRound s') = unat (currentVotingRound s) + 1"
    using a t u by (simp add: processResults_def finalizeResults_def Let_def)
qed

theorem processResults_unguarded_witness:
  "votingActive (votingRounds demo_voted (currentVotingRound demo_voted)) \<and>
   \<not> authorizedVoters demo_voted 3 \<and> admin demo_voted \<noteq> 3 \<and>
   \<not> overflows (roundAggregates demo_voted [8, 9]) \<and> currentVotingRound demo_voted \<noteq> 255 \<and>
   (case processResults demo_voted 3 7 [8, 9] [] of
      Inl e \<Rightarrow> False
    | Inr s' \<Rightarrow> resultsRevealed (votingRounds s' 1) \<and> winningProjectId (votingRounds s' 1) = 1 \<and>
        maxScore (votingRounds s' 1) = 17 \<and> currentVotingRound s' = 2) \<and>
   overflows (roundAggregates demo_voted [200, 100]) \<and>
   processResults demo_voted 3 7 [200, 100] [] = Inl Panic"
proof -
  have f: "currentVotingRound demo_voted = 1" "votingActive (votingRounds demo_voted 1)"
    "\<not> authorizedVoters demo_voted 3" "admin demo_voted = 1"
    "roundAggregates demo_voted [8, 9] = [(1, 17)]"
    "roundAggregates demo_voted [200, 100] = [(1, 300)]"
    "tally demo_voted [8, 9] = Inr (1, 17)"
    by (simp_all add: roundAggregates_def votedCount_def eval_defs)
  show ?thesis
    using processResults_unguarded [of demo_voted "[8, 9]" 3 7 "[]"]
      processResults_unguarded [of demo_voted "[200, 100]" 3 7 "[]"] f
    by (auto simp: overflows_def)
qed

text \<open>
  The claim as stated fails: in a reachable storage with two votes for one entry, the
  plaintexts 200 and 100 overflow the \<^verbatim>\<open>uint8\<close> sum and the call reverts.
\<close>

theorem processResults_unguarded_counterexample:
  "reachable demo_closed \<and> processResults demo_closed 3 7 [200, 100] [] = Inl Panic"
proof -
  have "reachable demo_closed"
    unfolding demo_closed_def demo_voted_def demo_open_def
    by (intro reachable_run reachable.deployed)
  then show ?thesis by (simp add: eval_defs)
qed

section \<open>The winner of the reduction\<close>

text \<open>
  C3 (as amended). The reduction of \<open>processResults\<close> computes for each entry of the
  snapshot the sum of the plaintexts its submitted votes consume (entries in snapshot
  order, voters in insertion order within each entry), and is a function of the storage
  and the plaintexts. If an aggregate exceeds 255 the reduction reverts. Otherwise, if
  the greatest aggregate is positive, the winner is the first entry in snapshot order
  whose aggregate is the greatest (strictly-greater comparison, so an earlier entry wins
  ties) and \<open>maxScore\<close> is that aggregate; if every aggregate is 0 the winner is 0 with
  \<open>maxScore\<close> 0, and no entry is selected.
\<close>

theorem tally_first_maximum:
  "(overflows (roundAggregates s ds) \<longrightarrow> tally s ds = Inl Panic) \<and>
   (\<not> overflows (roundAggregates s ds) \<and> maxAggregate (roundAggregates s ds) = 0 \<longrightarrow>
      tally s ds = Inr (0, 0)) \<and>
   (\<not> overflows (roundAggregates s ds) \<and> 0 < maxAggregate (roundAggregates s ds) \<longrightarrow>
      (\<exists>p. firstMaxEntry (roundAggregates s ds) = Some (p, maxAggregate (roundAggregates s ds)) \<and>
           tally s ds = Inr (p, of_nat (maxAggregate (roundAggregates s ds))) \<and>
           unat (of_nat (maxAggregate (roundAggregates s ds)) :: uint8) =
             maxAggregate (roundAggregates s ds)))"
proof (intro conjI impI)
  assume "overflows (roundAggregates s ds)"
  then show "tally s ds = Inl Panic" by (simp add: tally_eq)
next
  assume "\<not> overflows (roundAggregates s ds) \<and> maxAggregate (roundAggregates s ds) = 0"
  then show "tally s ds = Inr (0, 0)" by (simp add: tally_eq pick_zero)
next
  assume a: "\<not> overflows (roundAggregates s ds) \<and> 0 < maxAggregate (roundAggregates s ds)"
  then obtain p where p: "firstMaxEntry (roundAggregates s ds) =
      Some (p, maxAggregate (roundAggregates s ds))"
    using firstMaxEntry_Some by blast
  have "maxAggregate (roundAggregates s ds) \<le> 255" using a maxAggregate_fits by blast
  then have u: "unat (of_nat (maxAggregate (roundAggregates s ds)) :: uint8) =
             maxAggregate (roundAggregates s ds)"
    by (simp add: unat_of_nat)
  have "tally s ds = Inr (p, of_nat (maxAggregate (roundAggregates s ds)))"
    using a p by (simp add: tally_eq pick_zero)
  then show "\<exists>p. firstMaxEntry (roundAggregates s ds) =
        Some (p, maxAggregate (roundAggregates s ds)) \<and>
      tally s ds = Inr (p, of_nat (maxAggregate (roundAggregates s ds))) \<and>
      unat (of_nat (maxAggregate (roundAggregates s ds)) :: uint8) =
        maxAggregate (roundAggregates s ds)"
    using p u by blast
qed

theorem tally_first_maximum_witness:
  "overflows (roundAggregates demo_closed [200, 100]) \<and>
   tally demo_closed [200, 100] = Inl Panic \<and>
   \<not> overflows (roundAggregates demo_open []) \<and> maxAggregate (roundAggregates demo_open []) = 0 \<and>
   tally demo_open [] = Inr (0, 0) \<and>
   \<not> overflows (roundAggregates demo_tie [5, 5]) \<and>
   0 < maxAggregate (roundAggregates demo_tie [5, 5]) \<and>
   firstMaxEntry (roundAggregates demo_tie [5, 5]) = Some (2, 5) \<and>
   tally demo_tie [5, 5] = Inr (2, 5)"
  using tally_first_maximum [of demo_closed "[200, 100]"]
    tally_first_maximum [of demo_open "[]"]
    tally_first_maximum [of demo_tie "[5, 5]"]
  by (simp add: demo_aggregates overflows_def maxAggregate_def firstMaxEntry_def)

text \<open>
  The claim as stated fails: with no vote the only entry, 1, has the greatest aggregate
  but the winner is 0; and with the plaintexts 200 and 100 for the two votes of entry 1
  the aggregate is 300 and the reduction reverts instead of selecting a winner.
\<close>

theorem tally_first_maximum_counterexample:
  "roundAggregates demo_open [] = [(1, 0)] \<and>
   firstMaxEntry (roundAggregates demo_open []) = Some (1, 0) \<and>
   tally demo_open [] = Inr (0, 0) \<and>
   roundAggregates demo_closed [200, 100] = [(1, 300)] \<and>
   tally demo_closed [200, 100] = Inl Panic"
  by (simp add: demo_aggregates tally_eq overflows_def maxAggregate_def firstMaxEntry_def)

section \<open>Submitting outside an open round\<close>

text \<open>
  C4 (as amended). While the current round is not Open (\<open>votingActive\<close> is false),
  \<open>submitVote\<close> fails for every entry id, participant and score; the failure is
  NotActive ("Voting not active") when the participant is authorized, and Unauthorized
  ("Not authorized to vote") when the participant is not, because the authorization
  modifier runs first.
\<close>

theorem submitVote_not_open:
  assumes "\<not> votingActive (votingRounds s (currentVotingRound s))"
  shows "submitVote s sender now pid score =
           Inl (if authorizedVoters s sender then VotingNotActive else NotAuthorizedToVote)"
  using assms by (simp add: submitVote_def)

theorem submitVote_not_open_witness:
  "\<not> votingActive (votingRounds (constructor 1) (currentVotingRound (constructor 1))) \<and>
   submitVote (constructor 1) 1 20 1 5 = Inl VotingNotActive"
proof -
  have h: "\<not> votingActive (votingRounds (constructor 1) (currentVotingRound (constructor 1)))"
    by (simp add: constructor_def zeroRound_def)
  show ?thesis
    using h submitVote_not_open [OF h, of 1 20 1 5] by (simp add: constructor_def)
qed

text \<open>
  The claim as stated fails: no round is open after deployment, and the submission of
  the unauthorized address 3 fails with "Not authorized to vote", not with NotActive.
\<close>

theorem submitVote_not_open_counterexample:
  "\<not> votingActive (votingRounds (constructor 1) (currentVotingRound (constructor 1))) \<and>
   submitVote (constructor 1) 3 20 1 5 = Inl NotAuthorizedToVote \<and>
   submitVote (constructor 1) 3 20 1 5 \<noteq> Inl VotingNotActive"
  by (simp add: eval_defs)

section \<open>One submission per round, entry and participant\<close>

text \<open>
  C5 (as amended). Once \<open>submitVote\<close> has been accepted for a (round, entry, participant)
  triple, the stored Vote (encrypted score, \<open>hasVoted\<close>, timestamp) is the one of that
  first call after every later run of transactions, so at most one Submission ever exists
  for the triple; and while the round counter still names that round, every later
  \<open>submitVote\<close> for the triple fails. The failure is DuplicateSubmission ("Already voted
  for this project") when the earlier checks pass (participant authorized, round Open,
  score within 1..10, entry in the snapshot); otherwise it is the error of the first of
  those checks that fails.
\<close>

theorem submitVote_once:
  assumes "submitVote s a now p sc = Inr s1"
  shows "votes (run s1 txs) (currentVotingRound s) p a =
           \<lparr>encryptedScore = AsEuint8 sc, hasVoted = True, timestamp = now\<rparr> \<and>
         (currentVotingRound (run s1 txs) = currentVotingRound s \<longrightarrow>
            submitVote (run s1 txs) a now' p sc' =
              Inl (if \<not> authorizedVoters (run s1 txs) a then NotAuthorizedToVote
                   else if \<not> votingActive (votingRounds (run s1 txs) (currentVotingRound s))
                     then VotingNotActive
                   else if \<not> (1 \<le> sc' \<and> sc' \<le> 10) then ScoreOutOfRange
                   else if \<not> isProjectInCurrentRound (run s1 txs) p
                     then ProjectNotInCurrentRound
                   else AlreadyVoted))"
proof -
  have v1: "votes s1 (currentVotingRound s) p a =
           \<lparr>encryptedScore = AsEuint8 sc, hasVoted = True, timestamp = now\<rparr>"
    using assms by (rule submitVote_Inr_vote)
  then have "hasVoted (votes s1 (currentVotingRound s) p a)" by simp
  then have "votes (run s1 txs) (currentVotingRound s) p a = votes s1 (currentVotingRound s) p a"
    by (rule run_votes_kept)
  then have v2: "votes (run s1 txs) (currentVotingRound s) p a =
           \<lparr>encryptedScore = AsEuint8 sc, hasVoted = True, timestamp = now\<rparr>"
    using v1 by simp
  then have "hasVoted (votes (run s1 txs) (currentVotingRound s) p a)" by simp
  then show ?thesis using v2 by (simp add: submitVote_def Let_def)
qed

theorem submitVote_once_witness:
  "votes demo_voted 1 1 1 = \<lparr>encryptedScore = AsEuint8 8, hasVoted = True, timestamp = 13\<rparr> \<and>
   submitVote demo_voted 1 20 1 7 = Inl AlreadyVoted"
proof -
  have a: "submitVote demo_open 1 13 1 8 = Inr (run demo_open [(1, 13, SubmitVote 1 8)])"
    by (simp add: eval_defs)
  have r: "run (run demo_open [(1, 13, SubmitVote 1 8)]) [(2, 14, SubmitVote 1 9)] = demo_voted"
    by (simp add: demo_voted_def)
  have c: "currentVotingRound demo_open = 1" "currentVotingRound demo_voted = 1"
    "authorizedVoters demo_voted 1" "votingActive (votingRounds demo_voted 1)"
    "isProjectInCurrentRound demo_voted 1"
    by (simp_all add: eval_defs)
  show ?thesis
    using submitVote_once [OF a, of "[(2, 14, SubmitVote 1 9)]" 20 7] c
    unfolding r by simp
qed

text \<open>
  The claim as stated fails: address 1 has voted for project 1 in round 1, and its later
  submission for the same entry with score 11 fails with "Score must be between 1-10",
  not with DuplicateSubmission.
\<close>

theorem submitVote_once_counterexample:
  "hasVoted (votes demo_voted (currentVotingRound demo_voted) 1 1) \<and>
   authorizedVoters demo_voted 1 \<and>
   votingActive (votingRounds demo_voted (currentVotingRound demo_voted)) \<and>
   isProjectInCurrentRound demo_voted 1 \<and>
   submitVote demo_voted 1 20 1 11 = Inl ScoreOutOfRange \<and>
   submitVote demo_voted 1 20 1 11 \<noteq> Inl AlreadyVoted"
  by (simp add: eval_defs)

section \<open>Plaintext lists of any length\<close>

text \<open>
  C6 (as amended). \<open>processResults\<close> never fails with Mismatch. Whatever the number of
  plaintexts, it behaves as on the list cut or padded with zeros to the size of the
  batch of the current round: plaintexts beyond the batch are ignored, and votes with no
  plaintext left contribute nothing.
\<close>

theorem processResults_any_length:
  "processResults s sender rid ds sg =
     processResults s sender rid (take (batchSize s) (ds @ replicate (batchSize s) 0)) sg"
  by (simp only: processResults_def tally_eq roundAggregates_pad)

theorem processResults_any_length_witness:
  "batchSize demo_closed = 2 \<and>
   processResults demo_closed 3 7 [8] [] = processResults demo_closed 3 7 [8, 0] [] \<and>
   processResults demo_closed 3 7 [8, 9, 10] [] = processResults demo_closed 3 7 [8, 9] []"
proof -
  have b: "batchSize demo_closed = 2" by (simp add: batchSize_def eval_defs)
  show ?thesis
    using b processResults_any_length [of demo_closed 3 7 "[8]" "[]"]
      processResults_any_length [of demo_closed 3 7 "[8, 9, 10]" "[]"]
    by (simp add: numeral_2_eq_2)
qed

text \<open>
  The claim as stated fails: the decryption of two votes was requested, and both a list
  of one plaintext and a list of three are processed.
\<close>

theorem processResults_any_length_counterexample:
  "last (trace demo_closed) = RequestDecryption [AsEuint8 8, AsEuint8 9] \<and>
   batchSize demo_closed = 2 \<and>
   (case processResults demo_closed 3 7 [8] [] of
      Inl e \<Rightarrow> False
    | Inr s' \<Rightarrow> winningProjectId (votingRounds s' 1) = 1 \<and> maxScore (votingRounds s' 1) = 8) \<and>
   (case processResults demo_closed 3 7 [8, 9, 10] [] of
      Inl e \<Rightarrow> False
    | Inr s' \<Rightarrow> winningProjectId (votingRounds s' 1) = 1 \<and> maxScore (votingRounds s' 1) = 17)"
  by (simp add: batchSize_def eval_defs)

section \<open>Opening a round\<close>

text \<open>
  C7. In every reachable storage \<open>startVotingRound\<close> fails with Unauthorized ("Not
  authorized") if the caller is not the administrator, else with AlreadyActive if the
  current round is Open, else with EmptySelection if the id list is empty, else with
  UnknownEntry ("Project not active") if a listed id is not a registered, active entry;
  otherwise it succeeds, stores the id list as the snapshot in the order given, sets
  \<open>votingActive\<close>, and resets the voter list and the winner fields.
\<close>

theorem startVotingRound_checks:
  assumes "reachable s"
  shows "startVotingRound s sender now ids =
     (if sender \<noteq> admin s then Inl NotAuthorized
      else if votingActive (votingRounds s (currentVotingRound s)) then Inl VotingAlreadyActive
      else if ids = [] then Inl NoProjectsSelected
      else if list_ex (\<lambda>i. \<not> registeredActive s i) ids then Inl ProjectNotActive
      else Inr (s\<lparr>votingRounds := (votingRounds s)(currentVotingRound s :=
                    \<lparr>projectIds = ids, votingActive = True, resultsRevealed = False,
                     startTime = now, endTime = 0, voters = [],
                     winningProjectId = 0, maxScore = 0\<rparr>),
                  trace := trace s @ [VotingRoundStarted (currentVotingRound s) ids now]\<rparr>))"
proof -
  have "activeWithinTotal s" using assms by (rule activeWithinTotal_reachable)
  then show ?thesis
    by (simp add: startVotingRound_def requireActive_registered)
qed

theorem startVotingRound_checks_witness:
  "reachable demo_proposed \<and>
   startVotingRound demo_proposed 3 12 [1] = Inl NotAuthorized \<and>
   startVotingRound demo_proposed 1 12 [] = Inl NoProjectsSelected \<and>
   startVotingRound demo_proposed 1 12 [1, 2] = Inl ProjectNotActive \<and>
   startVotingRound demo_open 1 12 [1] = Inl VotingAlreadyActive \<and>
   (case startVotingRound demo_proposed 1 12 [1, 1] of
      Inl e \<Rightarrow> False
    | Inr s' \<Rightarrow> projectIds (votingRounds s' 1) = [1, 1] \<and> votingActive (votingRounds s' 1) \<and>
        voters (votingRounds s' 1) = [] \<and> winningProjectId (votingRounds s' 1) = 0 \<and>
        maxScore (votingRounds s' 1) = 0)"
proof -
  have h: "reachable demo_proposed"
    unfolding demo_proposed_def by (rule reachable_from_constructor)
  have h2: "reachable demo_open"
    unfolding demo_open_def by (rule reachable_from_constructor)
  have o: "admin demo_open = 1" "currentVotingRound demo_open = 1"
    "votingActive (votingRounds demo_open 1)"
    by (simp_all add: eval_defs)
  show ?thesis
    using h startVotingRound_checks [OF h, of 3 12 "[1]"]
      startVotingRound_checks [OF h, of 1 12 "[]"]
      startVotingRound_checks [OF h, of 1 12 "[1, 2]"]
      startVotingRound_checks [OF h, of 1 12 "[1, 1]"]
      startVotingRound_checks [OF h2, of 1 12 "[1]"]
    by (simp add: demo_proposed_facts o registeredActive_def)
qed

section \<open>Closing a round nobody voted in\<close>

text \<open>
  C8 (as amended). When the administrator calls \<open>endVotingRound\<close> on an Open round whose
  voter list is empty and the round counter is below 255, no decryption request is issued
  (the only effect appended to the trace is the \<open>ResultsRevealed\<close> event) and the round is
  finalized in the same call: \<open>votingActive\<close> false, \<open>endTime\<close> set, \<open>resultsRevealed\<close>
  true, winner and maximum 0, round counter incremented. At round counter 255 the
  increment overflows and the call reverts.
\<close>

theorem endVotingRound_no_voters:
  assumes "reachable s" "sender = admin s"
    "votingActive (votingRounds s (currentVotingRound s))"
    "voters (votingRounds s (currentVotingRound s)) = []"
  shows "endVotingRound s sender now =
     (if currentVotingRound s = 255 then Inl Panic
      else Inr (s\<lparr>votingRounds := (votingRounds s)(currentVotingRound s :=
                    (votingRounds s (currentVotingRound s))
                      \<lparr>votingActive := False, endTime := now, winningProjectId := 0,
                       maxScore := 0, resultsRevealed := True\<rparr>),
                  trace := trace s @ [ResultsRevealed (currentVotingRound s) 0 0],
                  currentVotingRound := currentVotingRound s + 1\<rparr>))"
proof -
  have "roundsAheadFresh s" using assms(1) by (rule roundsAheadFresh_reachable)
  then have "\<not> resultsRevealed (votingRounds s (currentVotingRound s))"
    by (simp add: roundsAheadFresh_def)
  then show ?thesis
    using assms(2-4)
    by (simp add: endVotingRound_def requestResultsDecryption_def finalizeResults_def Let_def
          countVotes_no_voters)
qed

theorem endVotingRound_no_voters_witness:
  "reachable demo_open \<and> admin demo_open = 1 \<and>
   votingActive (votingRounds demo_open (currentVotingRound demo_open)) \<and>
   voters (votingRounds demo_open (currentVotingRound demo_open)) = [] \<and>
   (case endVotingRound demo_open 1 15 of
      Inl e \<Rightarrow> False
    | Inr s' \<Rightarrow> resultsRevealed (votingRounds s' 1) \<and> \<not> votingActive (votingRounds s' 1) \<and>
        winningProjectId (votingRounds s' 1) = 0 \<and> maxScore (votingRounds s' 1) = 0 \<and>
        endTime (votingRounds s' 1) = 15 \<and> currentVotingRound s' = 2 \<and>
        trace s' = trace demo_open @ [ResultsRevealed 1 0 0])"
proof -
  have h: "reachable demo_open"
    unfolding demo_open_def by (rule reachable_from_constructor)
  have o: "admin demo_open = 1" "currentVotingRound demo_open = 1"
    "votingActive (votingRounds demo_open 1)" "voters (votingRounds demo_open 1) = []"
    by (simp_all add: eval_defs)
  have a: "(1 :: address) = admin demo_open" using o by simp
  have b: "votingActive (votingRounds demo_open (currentVotingRound demo_open))"
    and c: "voters (votingRounds demo_open (currentVotingRound demo_open)) = []"
    using o by simp_all
  show ?thesis
    using h o endVotingRound_no_voters [OF h a b c, of 15] by simp
qed

text \<open>
  The claim as stated fails at round 255, which 254 earlier finalizations reach: the
  administrator's call on the open round with no voters reverts.
\<close>

theorem endVotingRound_no_voters_counterexample:
  "reachable demo_round255 \<and> admin demo_round255 = 1 \<and>
   votingActive (votingRounds demo_round255 (currentVotingRound demo_round255)) \<and>
   voters (votingRounds demo_round255 (currentVotingRound demo_round255)) = [] \<and>
   endVotingRound demo_round255 1 23 = Inl Panic"
proof -
  have h: "reachable demo_round255"
    unfolding demo_round255_def by (intro reachable_run reachable.deployed)
  have "roundsAheadFresh demo_round255" using h by (rule roundsAheadFresh_reachable)
  then have nr: "\<not> resultsRevealed (votingRounds demo_round255 255)"
    using demo_round255_facts by (simp add: roundsAheadFresh_def)
  show ?thesis
    using h nr demo_round255_facts
    by (simp add: endVotingRound_def requestResultsDecryption_def finalizeResults_def Let_def
          countVotes_no_voters)
qed

section \<open>Entry ids\<close>



section \<open>No deactivation\<close>

text \<open>
  C10 (as amended). The contract has no operation that deactivates an entry: whatever
  the caller, no accepted call clears the active flag of an entry, and every accepted
  call leaves every field of every entry with id up to \<open>totalProjects\<close> unchanged.
\<close>

theorem exec_never_deactivates:
  assumes "exec s sender now c = Inr s'"
  shows "(isActive (projects s i) \<longrightarrow> isActive (projects s' i)) \<and>
         (i \<le> totalProjects s \<longrightarrow> projects s' i = projects s i)"
  using assms by (rule exec_projects_kept)

theorem exec_never_deactivates_witness:
  "isActive (projects demo_proposed 1) \<and> 1 \<le> totalProjects demo_proposed \<and>
   (case exec demo_proposed 1 12 (StartVotingRound [1]) of
      Inl e \<Rightarrow> False
    | Inr s' \<Rightarrow> isActive (projects s' 1) \<and> projects s' 1 = projects demo_proposed 1)"
proof -
  have e: "exec demo_proposed 1 12 (StartVotingRound [1]) =
             Inr (step demo_proposed (1, 12, StartVotingRound [1]))"
    by (simp add: step_def startVotingRound_def demo_proposed_facts)
  show ?thesis
    using exec_never_deactivates [OF e, of 1] demo_proposed_facts e by simp
qed

text \<open>
  The claim as stated fails: project 1 is registered and active, and no call, by the
  administrator or anyone else, returns a storage in which it is inactive.
\<close>

theorem exec_never_deactivates_counterexample:
  "isActive (projects demo_proposed 1) \<and>
   \<not> (\<exists>sender now c s'. exec demo_proposed sender now c = Inr s' \<and> \<not> isActive (projects s' 1))"
  using exec_projects_kept [of demo_proposed _ _ _ _ 1]
  by (auto simp: demo_proposed_facts)

end
